theory Spec2Isabelle
  imports Main "HOL-Library.List_Lexorder"
begin

section \<open>Python strings and the library functions the program calls\<close>

text \<open>
  A Python \<open>str\<close> is a sequence of Unicode code points, so a string is a list of
  naturals; \<open>py ''abc''\<close> is the literal \<open>"abc"\<close>. Lists of naturals are ordered
  lexicographically (HOL-Library.List\_Lexorder), which is how Python compares strings.
\<close>

type_synonym pystr = "nat list"

abbreviation py :: "string \<Rightarrow> pystr" where
  "py s \<equiv> map of_char s"

abbreviation ch :: "char \<Rightarrow> nat" where
  "ch c \<equiv> of_char c"

text \<open>
  The parts of the Python library that are not embedded here are taken as a parameter,
  one record of functions. Each field but the last is consulted only where the embedded
  code cannot decide by itself (a non-ASCII string, a bracketed host, a percent escape), so
  on plain ASCII input without escapes the model does not depend on it. The last field is
  the answer of the operating system when a new file is opened for writing.
\<close>

record pylib =
  lower_unicode :: "pystr \<Rightarrow> pystr"
    \<comment> \<open>\<open>str.lower\<close> on a string with a non-ASCII character\<close>
  upper_unicode :: "pystr \<Rightarrow> pystr"
    \<comment> \<open>\<open>str.upper\<close> on a string with a non-ASCII character\<close>
  check_bracketed_host :: "pystr \<Rightarrow> bool"
    \<comment> \<open>\<open>urllib.parse.\_check\_bracketed\_host\<close> returns (False: it raises ValueError)\<close>
  checknetloc :: "pystr \<Rightarrow> bool"
    \<comment> \<open>\<open>urllib.parse.\_checknetloc\<close> returns on a non-ASCII netloc (False: ValueError)\<close>
  unquote_escapes :: "pystr \<Rightarrow> pystr"
    \<comment> \<open>\<open>urllib.parse.unquote\<close> on a string that contains \<open>%\<close>\<close>
  decode_utf8 :: "pystr \<Rightarrow> pystr option"
    \<comment> \<open>\<open>s.encode("latin-1").decode("utf-8")\<close> on a non-ASCII string (None: it raises)\<close>
  open_ok :: "pystr \<Rightarrow> bool"
    \<comment> \<open>\<open>open(output_path, "wb")\<close> for a file name that is free in the output directory
        (False: it raises OSError, as for a name longer than the filesystem takes)\<close>

definition plain_lib :: pylib where
  "plain_lib = \<lparr> lower_unicode = (\<lambda>s. s), upper_unicode = (\<lambda>s. s),
     check_bracketed_host = (\<lambda>s. False), checknetloc = (\<lambda>s. True),
     unquote_escapes = (\<lambda>s. s), decode_utf8 = (\<lambda>s. None),
     open_ok = (\<lambda>name. length name \<le> 255) \<rparr>"

definition isascii :: "pystr \<Rightarrow> bool" where
  "isascii s = list_all (\<lambda>c. c < 128) s"

definition ascii_lower :: "nat \<Rightarrow> nat" where
  "ascii_lower c = (if 65 \<le> c \<and> c \<le> 90 then c + 32 else c)"

definition ascii_upper :: "nat \<Rightarrow> nat" where
  "ascii_upper c = (if 97 \<le> c \<and> c \<le> 122 then c - 32 else c)"

definition lower :: "pylib \<Rightarrow> pystr \<Rightarrow> pystr" where
  "lower L s = (if isascii s then map ascii_lower s else lower_unicode L s)"

definition upper :: "pylib \<Rightarrow> pystr \<Rightarrow> pystr" where
  "upper L s = (if isascii s then map ascii_upper s else upper_unicode L s)"

definition startswith :: "pystr \<Rightarrow> pystr \<Rightarrow> bool" where
  "startswith s w = (take (length w) s = w)"

definition endswith :: "pystr \<Rightarrow> pystr \<Rightarrow> bool" where
  "endswith s w = (length w \<le> length s \<and> drop (length s - length w) s = w)"

text \<open>\<open>w in s\<close> for strings: \<open>w\<close> occurs in \<open>s\<close> at some position.\<close>

fun contains :: "pystr \<Rightarrow> pystr \<Rightarrow> bool" where
  "contains w [] = (w = [])"
| "contains w (c # cs) = (startswith (c # cs) w \<or> contains w cs)"

text \<open>\<open>s.find(c)\<close> and \<open>s.rfind(c)\<close> for one character; None stands for \<open>-1\<close>.\<close>

fun find_chr :: "nat \<Rightarrow> pystr \<Rightarrow> nat option" where
  "find_chr c [] = None"
| "find_chr c (x # xs) =
     (if x = c then Some 0 else map_option Suc (find_chr c xs))"

fun rfind_chr :: "nat \<Rightarrow> pystr \<Rightarrow> nat option" where
  "rfind_chr c [] = None"
| "rfind_chr c (x # xs) =
     (case rfind_chr c xs of
        Some i \<Rightarrow> Some (Suc i)
      | None \<Rightarrow> if x = c then Some 0 else None)"

text \<open>\<open>s.replace(c, d)\<close> for single characters, and \<open>s.strip(chars)\<close>.\<close>

definition replace_chr :: "nat \<Rightarrow> nat \<Rightarrow> pystr \<Rightarrow> pystr" where
  "replace_chr c d s = map (\<lambda>x. if x = c then d else x) s"

definition strip_chars :: "pystr \<Rightarrow> pystr \<Rightarrow> pystr" where
  "strip_chars cs s =
     rev (dropWhile (\<lambda>c. c \<in> set cs) (rev (dropWhile (\<lambda>c. c \<in> set cs) s)))"

text \<open>
  \<open>str.strip()\<close> without argument removes the characters for which \<open>str.isspace\<close>
  holds.
\<close>

definition isspace :: "nat \<Rightarrow> bool" where
  "isspace c = ((9 \<le> c \<and> c \<le> 13) \<or> (28 \<le> c \<and> c \<le> 32) \<or> c = 133 \<or> c = 160
     \<or> c = 5760 \<or> (8192 \<le> c \<and> c \<le> 8202) \<or> c = 8232 \<or> c = 8233 \<or> c = 8239
     \<or> c = 8287 \<or> c = 12288)"

definition strip :: "pystr \<Rightarrow> pystr" where
  "strip s = rev (dropWhile isspace (rev (dropWhile isspace s)))"

text \<open>\<open>str(n)\<close> for a non-negative integer: its decimal digits.\<close>

fun str_nat :: "nat \<Rightarrow> pystr" where
  "str_nat n = (if n < 10 then [48 + n] else str_nat (n div 10) @ [48 + n mod 10])"

declare str_nat.simps [simp del]

subsection \<open>Regular expressions, as the \<open>re\<close> module matches them\<close>

text \<open>
  A pattern is a backtracking matcher: at a position it returns every way to match, most
  preferred first, each with the groups captured and the rest of the input. The
  combinators below are the constructs the program's patterns use. \<open>re.search\<close> takes
  the first match at the leftmost position that has one.
\<close>

type_synonym rematch = "pystr list \<times> pystr"
type_synonym regex = "pystr \<Rightarrow> rematch list"

definition lit :: "pystr \<Rightarrow> regex" where
  "lit w s = (if startswith s w then [([], drop (length w) s)] else [])"

definition cls :: "(nat \<Rightarrow> bool) \<Rightarrow> regex" where
  "cls P s = (case s of [] \<Rightarrow> [] | c # r \<Rightarrow> if P c then [([], r)] else [])"

definition seq :: "regex \<Rightarrow> regex \<Rightarrow> regex" where
  "seq p q s = concat (map (\<lambda>(g, r). map (\<lambda>(g', r'). (g @ g', r')) (q r)) (p s))"

definition alt :: "regex \<Rightarrow> regex \<Rightarrow> regex" where
  "alt p q s = p s @ q s"

definition opt :: "regex \<Rightarrow> regex" where
  "opt p s = p s @ [([], s)]"

text \<open>
  \<open>[..]{lo,hi}\<close> and \<open>[..]+\<close> (\<open>hi = None\<close>) on a character class, greedy: the longest
  run first, then shorter ones down to \<open>lo\<close>.
\<close>

definition rep :: "(nat \<Rightarrow> bool) \<Rightarrow> nat \<Rightarrow> nat option \<Rightarrow> regex" where
  "rep P lo hi s =
     (let n = length (takeWhile P s);
          m = (case hi of None \<Rightarrow> n | Some h \<Rightarrow> min n h)
      in map (\<lambda>k. ([], drop k s)) (rev [lo..<Suc m]))"

definition grp :: "regex \<Rightarrow> regex" where
  "grp p s = map (\<lambda>(g, r). (g @ [take (length s - length r) s], r)) (p s)"

text \<open>\<open>$\<close> without MULTILINE: the end of the string, or just before a final newline.\<close>

definition eos :: regex where
  "eos s = (if s = [] \<or> s = [10] then [([], s)] else [])"

fun re_search :: "regex \<Rightarrow> pystr \<Rightarrow> rematch option" where
  "re_search p [] = (case p [] of [] \<Rightarrow> None | m # _ \<Rightarrow> Some m)"
| "re_search p (c # cs) =
     (case p (c # cs) of [] \<Rightarrow> re_search p cs | m # _ \<Rightarrow> Some m)"

definition group1 :: "rematch \<Rightarrow> pystr" where
  "group1 m = (case fst m of [] \<Rightarrow> [] | g # _ \<Rightarrow> g)"

subsection \<open>\<open>urllib.parse\<close>: the path of \<open>urlparse\<close>, and \<open>unquote\<close>\<close>

definition scheme_chars :: pystr where
  "scheme_chars =
     py ''abcdefghijklmnopqrstuvwxyzABCDEFGHIJKLMNOPQRSTUVWXYZ0123456789+-.''"

definition ascii_alpha :: "nat \<Rightarrow> bool" where
  "ascii_alpha c = ((65 \<le> c \<and> c \<le> 90) \<or> (97 \<le> c \<and> c \<le> 122))"

definition uses_params :: "pystr list" where
  "uses_params = [py '''', py ''ftp'', py ''hdl'', py ''prospero'', py ''http'',
     py ''imap'', py ''https'', py ''shttp'', py ''rtsp'', py ''rtsps'', py ''rtspu'',
     py ''sip'', py ''sips'', py ''mms'', py ''sftp'', py ''tel'']"

text \<open>
  \<open>urlsplit\<close>: leading C0 controls and spaces are stripped, tab, CR and LF are removed, a
  scheme is split off, then the netloc after \<open>//\<close>, then the fragment and the query.
  The result here is the scheme and the path; None is the ValueError that the host checks
  raise.
\<close>

definition split_scheme :: "pystr \<Rightarrow> pystr \<times> pystr" where
  "split_scheme url =
     (case find_chr (ch CHR '':'') url of
        None \<Rightarrow> ([], url)
      | Some i \<Rightarrow>
          if 0 < i \<and> ascii_alpha (hd url) \<and> list_all (\<lambda>c. c \<in> set scheme_chars) (take i url)
          then (map ascii_lower (take i url), drop (Suc i) url)
          else ([], url))"

definition splitnetloc :: "pystr \<Rightarrow> pystr \<times> pystr" where
  "splitnetloc url =
     (let rest = drop 2 url;
          delim = (\<lambda>c. c = ch CHR ''/'' \<or> c = ch CHR ''?'' \<or> c = ch CHR ''#'')
      in (takeWhile (\<lambda>c. \<not> delim c) rest, dropWhile (\<lambda>c. \<not> delim c) rest))"

definition netloc_ok :: "pylib \<Rightarrow> pystr \<Rightarrow> bool" where
  "netloc_ok L netloc =
     (let lb = ch CHR ''['' \<in> set netloc; rb = ch CHR '']'' \<in> set netloc
      in if lb \<noteq> rb then False
         else if lb \<and> rb \<and>
                 \<not> check_bracketed_host L
                     (takeWhile (\<lambda>c. c \<noteq> ch CHR '']'')
                        (drop 1 (dropWhile (\<lambda>c. c \<noteq> ch CHR ''['') netloc)))
              then False
         else if netloc \<noteq> [] \<and> \<not> isascii netloc then checknetloc L netloc
         else True)"

definition urlsplit :: "pylib \<Rightarrow> pystr \<Rightarrow> (pystr \<times> pystr) option" where
  "urlsplit L url0 =
     (let url1 = dropWhile (\<lambda>c. c \<le> 32) url0;
          url2 = filter (\<lambda>c. c \<noteq> 9 \<and> c \<noteq> 13 \<and> c \<noteq> 10) url1;
          (scheme, url3) = split_scheme url2;
          (netloc, url4) = (if take 2 url3 = py ''//'' then splitnetloc url3 else ([], url3));
          url5 = takeWhile (\<lambda>c. c \<noteq> ch CHR ''#'') url4;
          url6 = takeWhile (\<lambda>c. c \<noteq> ch CHR ''?'') url5
      in if netloc_ok L netloc then Some (scheme, url6) else None)"

definition splitparams :: "pystr \<Rightarrow> pystr \<times> pystr" where
  "splitparams url =
     (case rfind_chr (ch CHR ''/'') url of
        Some j \<Rightarrow>
          (case find_chr (ch CHR '';'') (drop j url) of
             None \<Rightarrow> (url, [])
           | Some k \<Rightarrow> (take (j + k) url, drop (Suc (j + k)) url))
      | None \<Rightarrow>
          (case find_chr (ch CHR '';'') url of
             None \<Rightarrow> (url, [])
           | Some i \<Rightarrow> (take i url, drop (Suc i) url)))"

definition urlparse_path :: "pylib \<Rightarrow> pystr \<Rightarrow> pystr option" where
  "urlparse_path L url =
     (case urlsplit L url of
        None \<Rightarrow> None
      | Some (scheme, p) \<Rightarrow>
          if scheme \<in> set uses_params \<and> ch CHR '';'' \<in> set p
          then Some (fst (splitparams p)) else Some p)"

definition unquote :: "pylib \<Rightarrow> pystr \<Rightarrow> pystr" where
  "unquote L s = (if ch CHR ''%'' \<notin> set s then s else unquote_escapes L s)"

section \<open>URL classification\<close>

definition ext_char :: "nat \<Rightarrow> bool" where
  "ext_char c = ((97 \<le> c \<and> c \<le> 122) \<or> (48 \<le> c \<and> c \<le> 57))"

text \<open>The pattern \<^verbatim>\<open>\.[a-z0-9]{2,5}$\<close>.\<close>

definition ext_at_end :: regex where
  "ext_at_end = seq (lit (py ''.'')) (seq (rep ext_char 2 (Some 5)) eos)"

text \<open>The pattern \<^verbatim>\<open>\.[a-z0-9]{2,5}[?#]\<close>.\<close>

definition ext_before_delim :: regex where
  "ext_before_delim =
     seq (lit (py ''.''))
       (seq (rep ext_char 2 (Some 5)) (cls (\<lambda>c. c = ch CHR ''?'' \<or> c = ch CHR ''#'')))"

text \<open>
  \<open>is_file_link\<close>; None is the ValueError that \<open>urlparse\<close> raises, which the function
  does not catch.
\<close>

definition is_file_link :: "pylib \<Rightarrow> pystr \<Rightarrow> bool option" where
  "is_file_link L url =
     (let url_lower = lower L url
      in case urlparse_path L url_lower of
           None \<Rightarrow> None
         | Some path \<Rightarrow>
             if path = [] \<or> endswith path (py ''/'') then Some False
             else if re_search ext_at_end path \<noteq> None then Some True
             else if re_search ext_before_delim url_lower \<noteq> None then Some True
             else Some False)"

text \<open>The pattern \<^verbatim>\<open>[?&](?:q|url)=([^&]+)\<close>.\<close>

definition wrapper_param :: regex where
  "wrapper_param =
     seq (cls (\<lambda>c. c = ch CHR ''?'' \<or> c = ch CHR ''&''))
       (seq (alt (lit (py ''q'')) (lit (py ''url'')))
          (seq (lit (py ''=''))
             (grp (rep (\<lambda>c. c \<noteq> ch CHR ''&'') 1 None))))"

text \<open>\<open>clean_google_url\<close>; None is Python's \<open>None\<close>.\<close>

definition clean_google_url :: "pylib \<Rightarrow> pystr \<Rightarrow> pystr option" where
  "clean_google_url L url =
     (let direct = (if startswith url (py ''http'') then Some url else None)
      in if contains (py ''/url?q='') url \<or> contains (py ''/url?url='') url
         then (case re_search wrapper_param url of
                 Some m \<Rightarrow> Some (unquote L (group1 m))
               | None \<Rightarrow> direct)
         else direct)"

section \<open>The search crawler\<close>

text \<open>
  What the browser shows for one result page. \<open>Failed\<close>: an exception is raised before
  the anchors are read (navigation timeout, a failing wait or query), which the loop body
  catches. \<open>Rendered links nxt\<close>: the \<open>href\<close> of every anchor, and the answer to the query
  for the \<open>a#pnnext\<close> control, None when that query raises. The consent dialog and the wait
  for the operator after a CAPTCHA change neither the links nor the control flow and are
  left to the environment.
\<close>

datatype page = Failed | Rendered "pystr list" "bool option"

text \<open>
  The inner loop over the links of one page. The set is updated in place, so links added
  before a ValueError of \<open>is_file_link\<close> stay in it; the flag says whether it was raised.
\<close>

fun add_file_links :: "pylib \<Rightarrow> pystr list \<Rightarrow> pystr set \<Rightarrow> pystr set \<times> bool" where
  "add_file_links L [] file_links = (file_links, False)"
| "add_file_links L (link # links) file_links =
     (case is_file_link L link of
        None \<Rightarrow> (file_links, True)
      | Some False \<Rightarrow> add_file_links L links file_links
      | Some True \<Rightarrow>
          (case clean_google_url L link of
             None \<Rightarrow> add_file_links L links file_links
           | Some clean_link \<Rightarrow>
               if clean_link \<noteq> [] then add_file_links L links (insert clean_link file_links)
               else add_file_links L links file_links))"

record crawl_state =
  file_links :: "pystr set"
  iterations :: nat

text \<open>
  The body of the loop \<open>for page_num in range(max_pages)\<close> on one page: the new state,
  and whether the loop goes on. An exception in the body is caught and the loop continues
  with the next page; a page without the \<open>next\<close> control ends it (\<open>break\<close>).
\<close>

definition visit :: "pylib \<Rightarrow> page \<Rightarrow> crawl_state \<Rightarrow> crawl_state \<times> bool" where
  "visit L pg st =
     (case pg of
        Failed \<Rightarrow> (st\<lparr>iterations := Suc (iterations st)\<rparr>, True)
      | Rendered links has_next \<Rightarrow>
          (let st' = \<lparr>file_links = fst (add_file_links L links (file_links st)),
                      iterations = Suc (iterations st)\<rparr>
           in if snd (add_file_links L links (file_links st)) then (st', True)
              else case has_next of
                     None \<Rightarrow> (st', True)
                   | Some True \<Rightarrow> (st', True)
                   | Some False \<Rightarrow> (st', False)))"

function crawl_pages ::
  "pylib \<Rightarrow> (int \<Rightarrow> page) \<Rightarrow> int \<Rightarrow> int \<Rightarrow> crawl_state \<Rightarrow> crawl_state" where
  "crawl_pages L web max_pages page_num st =
     (if page_num < max_pages then
        (if snd (visit L (web page_num) st)
         then crawl_pages L web max_pages (page_num + 1) (fst (visit L (web page_num) st))
         else fst (visit L (web page_num) st))
      else st)"
  by pat_completeness auto
termination
  by (relation "measure (\<lambda>(L, web, max_pages, page_num, st). nat (max_pages - page_num))") auto

declare crawl_pages.simps [simp del]

definition crawl :: "pylib \<Rightarrow> (int \<Rightarrow> page) \<Rightarrow> int \<Rightarrow> crawl_state" where
  "crawl L web max_pages = crawl_pages L web max_pages 0 \<lparr>file_links = {}, iterations = 0\<rparr>"

text \<open>\<open>extract_file_links\<close> returns \<open>sorted(list(file_links))\<close>.\<close>

definition extract_file_links :: "pylib \<Rightarrow> (int \<Rightarrow> page) \<Rightarrow> int \<Rightarrow> pystr list" where
  "extract_file_links L web max_pages =
     sorted_list_of_set (file_links (crawl L web max_pages))"

section \<open>Filenames\<close>

text \<open>
  \<open>os.path.splitext\<close> and \<open>os.path.basename\<close> as \<open>posixpath\<close> defines them: the
  separator is \<open>/\<close>, and the dots that begin the last component start no extension.
\<close>

definition splitext :: "pystr \<Rightarrow> pystr \<times> pystr" where
  "splitext p =
     (let filenameIndex = (case rfind_chr (ch CHR ''/'') p of None \<Rightarrow> 0 | Some i \<Rightarrow> Suc i)
      in case rfind_chr (ch CHR ''.'') p of
           None \<Rightarrow> (p, [])
         | Some dotIndex \<Rightarrow>
             if filenameIndex \<le> dotIndex \<and>
                list_ex (\<lambda>c. c \<noteq> ch CHR ''.'') (take (dotIndex - filenameIndex) (drop filenameIndex p))
             then (take dotIndex p, drop dotIndex p)
             else (p, []))"

definition basename :: "pystr \<Rightarrow> pystr" where
  "basename p = (case rfind_chr (ch CHR ''/'') p of None \<Rightarrow> p | Some i \<Rightarrow> drop (Suc i) p)"

definition invalid_chars :: pystr where
  \<open>invalid_chars = py ''<>:"|?*''\<close>

definition reserved_names :: "pystr list" where
  "reserved_names = [py ''CON'', py ''PRN'', py ''AUX'', py ''NUL'',
     py ''COM1'', py ''COM2'', py ''COM3'', py ''COM4'', py ''COM5'', py ''COM6'',
     py ''COM7'', py ''COM8'', py ''COM9'',
     py ''LPT1'', py ''LPT2'', py ''LPT3'', py ''LPT4'', py ''LPT5'', py ''LPT6'',
     py ''LPT7'', py ''LPT8'', py ''LPT9'']"

text \<open>
  \<open>sanitize_filename\<close>, step by step: the invalid characters and both slashes become
  \<open>_\<close> (92 is the backslash), the characters below 32 are dropped, dots and spaces are
  stripped from both ends, an empty name becomes \<open>file\<close>, and a reserved name gets
  \<open>_\<close> in front.
\<close>

definition replace_invalid :: "pystr \<Rightarrow> pystr" where
  "replace_invalid filename =
     replace_chr 92 (ch CHR ''_'')
       (replace_chr (ch CHR ''/'') (ch CHR ''_'')
          (fold (\<lambda>char f. replace_chr char (ch CHR ''_'') f) invalid_chars filename))"

definition trimmed_name :: "pystr \<Rightarrow> pystr" where
  "trimmed_name filename =
     (let f = strip_chars (py ''. '') (filter (\<lambda>char. 32 \<le> char) (replace_invalid filename))
      in if f = [] then py ''file'' else f)"

definition sanitize_filename :: "pylib \<Rightarrow> pystr \<Rightarrow> pystr" where
  "sanitize_filename L filename =
     (let f = trimmed_name filename;
          name_without_ext = upper L (fst (splitext f))
      in if name_without_ext \<in> set reserved_names then py ''_'' @ f else f)"

subsection \<open>The name of a download\<close>

text \<open>
  The patterns \<^verbatim>\<open>filename\*=UTF-8''([^;]+)\<close> and \<^verbatim>\<open>filename=["\'"]?([^"\'";]+)\<close> of
  the Content-Disposition header (34 and 39 are the double and the single quote).
\<close>

definition cd_extended :: regex where
  "cd_extended =
     seq (lit (py ''filename*=UTF-8'' @ [39, 39]))
       (grp (rep (\<lambda>c. c \<noteq> ch CHR '';'') 1 None))"

definition cd_plain :: regex where
  "cd_plain =
     seq (lit (py ''filename=''))
       (seq (opt (cls (\<lambda>c. c = 34 \<or> c = 39)))
          (grp (rep (\<lambda>c. c \<noteq> 34 \<and> c \<noteq> 39 \<and> c \<noteq> ch CHR '';'') 1 None)))"

definition latin1_as_utf8 :: "pylib \<Rightarrow> pystr \<Rightarrow> pystr" where
  "latin1_as_utf8 L raw_filename =
     (if isascii raw_filename then raw_filename
      else case decode_utf8 L raw_filename of Some f \<Rightarrow> f | None \<Rightarrow> raw_filename)"

text \<open>The filename of the header; None is Python's \<open>None\<close>.\<close>

definition header_filename :: "pylib \<Rightarrow> pystr \<Rightarrow> pystr option" where
  "header_filename L content_disposition =
     (if content_disposition = [] then None
      else case re_search cd_extended content_disposition of
             Some m \<Rightarrow> Some (unquote L (group1 m))
           | None \<Rightarrow>
               (case re_search cd_plain content_disposition of
                  Some m \<Rightarrow> Some (latin1_as_utf8 L (strip_chars [34, 39] (group1 m)))
                | None \<Rightarrow> None))"

definition mime_to_ext :: "(pystr \<times> pystr) list" where
  "mime_to_ext =
    [(py ''application/pdf'', py ''.pdf''),
     (py ''application/msword'', py ''.doc''),
     (py ''application/vnd.openxmlformats-officedocument.wordprocessingml.document'', py ''.docx''),
     (py ''application/vnd.ms-excel'', py ''.xls''),
     (py ''application/vnd.openxmlformats-officedocument.spreadsheetml.sheet'', py ''.xlsx''),
     (py ''application/vnd.ms-powerpoint'', py ''.ppt''),
     (py ''application/vnd.openxmlformats-officedocument.presentationml.presentation'', py ''.pptx''),
     (py ''application/zip'', py ''.zip''),
     (py ''application/x-zip-compressed'', py ''.zip''),
     (py ''text/plain'', py ''.txt''),
     (py ''text/csv'', py ''.csv''),
     (py ''image/jpeg'', py ''.jpg''),
     (py ''image/png'', py ''.png''),
     (py ''image/gif'', py ''.gif'')]"

text \<open>
  \<open>correct_ext\<close>: the Content-Type header up to the first \<open>;\<close>, stripped and lowered,
  looked up in the table; the empty string when it is not there.
\<close>

definition correct_ext_of :: "pylib \<Rightarrow> pystr \<Rightarrow> pystr" where
  "correct_ext_of L content_type_header =
     (let content_type = lower L (strip (takeWhile (\<lambda>c. c \<noteq> ch CHR '';'') content_type_header))
      in case map_of mime_to_ext content_type of None \<Rightarrow> [] | Some e \<Rightarrow> e)"

definition dynamic_exts :: "pystr list" where
  "dynamic_exts = [py ''.aspx'', py ''.php'', py ''.jsp'', py ''.cgi'', py ''.asp'']"

text \<open>The block that replaces the extension of a dynamic endpoint.\<close>

definition fix_extension :: "pylib \<Rightarrow> pystr \<Rightarrow> pystr \<Rightarrow> pystr" where
  "fix_extension L filename correct_ext =
     (if filename \<noteq> [] \<and> correct_ext \<noteq> [] then
        (let current_ext = lower L (snd (splitext filename))
         in if current_ext \<noteq> correct_ext \<and> current_ext \<in> set dynamic_exts
            then fst (splitext filename) @ correct_ext
            else filename)
      else filename)"

text \<open>
  The filename the response suggests: the one of the Content-Disposition header, else the
  last segment of the path of the URL. None is the ValueError of \<open>urlparse(url)\<close>,
  which the loop body catches as a failed download.
\<close>

definition response_filename :: "pylib \<Rightarrow> pystr \<Rightarrow> pystr \<Rightarrow> pystr option" where
  "response_filename L url content_disposition =
     (let from_header = (case header_filename L content_disposition of
                           None \<Rightarrow> [] | Some f \<Rightarrow> f)
      in if from_header \<noteq> [] then Some from_header
         else map_option (\<lambda>path. unquote L (basename path)) (urlparse_path L url))"

text \<open>The name of download \<open>idx\<close> before the directory is looked at.\<close>

definition resolve_filename :: "pylib \<Rightarrow> nat \<Rightarrow> pystr \<Rightarrow> pystr \<Rightarrow> pystr \<Rightarrow> pystr option" where
  "resolve_filename L idx url content_disposition content_type_header =
     (case response_filename L url content_disposition of
           None \<Rightarrow> None
         | Some filename \<Rightarrow>
             (let correct_ext = correct_ext_of L content_type_header;
                  filename' = fix_extension L filename correct_ext;
                  filename'' = (if filename' = [] \<or> ch CHR ''.'' \<notin> set filename'
                                then py ''file_'' @ str_nat idx @ correct_ext
                                else filename')
              in Some (sanitize_filename L filename'')))"

text \<open>
  The loop \<open>while os.path.exists(output_path)\<close>; \<open>exists\<close> says which names are taken in
  the output directory. It returns None when it never ends.
\<close>

partial_function (option) free_name ::
  "(pystr \<Rightarrow> bool) \<Rightarrow> pystr \<Rightarrow> pystr \<Rightarrow> nat \<Rightarrow> pystr \<Rightarrow> pystr option" where
  "free_name exists base ext counter filename =
     (if exists filename
      then free_name exists base ext (Suc counter) (base @ py ''_'' @ str_nat counter @ ext)
      else Some filename)"

declare free_name.simps [code]

definition unique_name :: "(pystr \<Rightarrow> bool) \<Rightarrow> pystr \<Rightarrow> pystr option" where
  "unique_name exists filename =
     (if exists filename
      then free_name exists (fst (splitext filename)) (snd (splitext filename)) 1 filename
      else Some filename)"

section \<open>The downloader\<close>

text \<open>
  What \<open>requests.get\<close> gives for one URL. \<open>RequestFailed\<close>: the request or
  \<open>raise_for_status\<close> raises a RequestException. Otherwise the response: the two headers
  (empty when absent), whether \<open>int\<close> accepts the content-length header, the chunks of the
  body, and whether the stream delivers them all without raising.
\<close>

record response =
  content_disposition :: pystr
  content_type :: pystr
  content_length_ok :: bool
  chunks :: "nat list list"
  stream_ok :: bool

datatype fetched = RequestFailed | Response response

text \<open>
  The state of a run: the files of the output directory with their bytes, the URLs
  requested so far, what was printed before the loop, the counters, and whether the
  statistics were printed.
\<close>

record dl_state =
  files :: "pystr \<rightharpoonup> nat list"
  requested :: "pystr list"
  printed :: "pystr list"
  success_count :: nat
  failed_count :: nat
  total_bytes :: nat
  file_types :: "pystr \<rightharpoonup> nat"
  stats_printed :: bool

definition failed :: "dl_state \<Rightarrow> dl_state" where
  "failed st = st\<lparr>failed_count := Suc (failed_count st)\<rparr>"

text \<open>
  One pass of the loop body for the URL number \<open>idx\<close>. Every exception ends in one of the
  two handlers, which count a failure: a failing request, the ValueError of \<open>urlparse\<close>,
  a content-length that \<open>int\<close> refuses, the OSError of \<open>open\<close>, a stream that breaks.
  The file is created once its name is free and \<open>open\<close> succeeds; a stream that breaks
  leaves what was written. None: the search for a free name never ends.
\<close>

definition download_one :: "pylib \<Rightarrow> nat \<Rightarrow> pystr \<Rightarrow> fetched \<Rightarrow> dl_state \<Rightarrow> dl_state option" where
  "download_one L idx url got st0 =
     (let st = st0\<lparr>requested := requested st0 @ [url]\<rparr>
      in case got of
           RequestFailed \<Rightarrow> Some (failed st)
         | Response r \<Rightarrow>
             (case resolve_filename L idx url (content_disposition r) (content_type r) of
                None \<Rightarrow> Some (failed st)
              | Some name \<Rightarrow>
                  (case unique_name (\<lambda>n. files st n \<noteq> None) name of
                     None \<Rightarrow> None
                   | Some filename \<Rightarrow>
                       if \<not> content_length_ok r then Some (failed st)
                       else if \<not> open_ok L filename then Some (failed st)
                       else
                         (let st1 = st\<lparr>files := (files st)(filename \<mapsto> concat (chunks r))\<rparr>;
                              ext = lower L (snd (splitext filename))
                          in if \<not> stream_ok r then Some (failed st1)
                             else Some (st1\<lparr>
                               total_bytes := total_bytes st1 + length (concat (chunks r)),
                               file_types :=
                                 (if ext \<noteq> []
                                  then (file_types st1)
                                         (ext \<mapsto> (case file_types st1 ext of None \<Rightarrow> 0 | Some n \<Rightarrow> n) + 1)
                                  else file_types st1),
                               success_count := Suc (success_count st1)\<rparr>)))))"

text \<open>\<open>for idx, url in enumerate(urls, 1)\<close>, from \<open>idx\<close> on.\<close>

fun download_loop ::
  "pylib \<Rightarrow> (nat \<Rightarrow> pystr \<Rightarrow> fetched) \<Rightarrow> nat \<Rightarrow> pystr list \<Rightarrow> dl_state \<Rightarrow> dl_state option" where
  "download_loop L net idx [] st = Some st"
| "download_loop L net idx (url # urls) st =
     (case download_one L idx url (net idx url) st of
        None \<Rightarrow> None
      | Some st' \<Rightarrow> download_loop L net (Suc idx) urls st')"

definition read_urls :: "pystr list \<Rightarrow> pystr list" where
  "read_urls lines = map strip (filter (\<lambda>line. strip line \<noteq> []) lines)"

definition start_state :: "(pystr \<rightharpoonup> nat list) \<Rightarrow> dl_state" where
  "start_state dir = \<lparr>files = dir, requested = [], printed = [], success_count = 0,
     failed_count = 0, total_bytes = 0, file_types = Map.empty, stats_printed = False\<rparr>"

text \<open>
  \<open>download_files\<close>. \<open>input\<close> is the content of the input file as its lines, None when
  the file does not exist; \<open>dir\<close> is the output directory, which the first statement
  creates when it is missing.
\<close>

definition download_files ::
  "pylib \<Rightarrow> (nat \<Rightarrow> pystr \<Rightarrow> fetched) \<Rightarrow> pystr \<Rightarrow> pystr list option \<Rightarrow> pystr \<Rightarrow>
     (pystr \<rightharpoonup> nat list) \<Rightarrow> dl_state option" where
  "download_files L net input_file input output_dir dir =
     (case input of
        None \<Rightarrow>
          Some ((start_state dir)\<lparr>printed := [py ''Error: File '' @ [39] @ input_file @ [39] @ py '' not found.'']\<rparr>)
      | Some lines \<Rightarrow>
          (let urls = read_urls lines
           in if urls = []
              then Some ((start_state dir)\<lparr>printed := [py ''No URLs found in '' @ input_file]\<rparr>)
              else map_option (\<lambda>st. st\<lparr>stats_printed := True\<rparr>)
                     (download_loop L net 1 urls
                        ((start_state dir)\<lparr>printed :=
                           [py ''Found '' @ str_nat (length urls) @ py '' URLs to download'',
                            py ''Saving to directory: '' @ output_dir]\<rparr>))))"

section \<open>The properties as the specification words them\<close>

text \<open>
  ``Ends with a dot followed by 2 to 5 alphanumeric characters'', and ``contains such an
  extension immediately before \<open>?\<close> or \<open>#\<close>'', on a lower-cased string.
\<close>

definition ends_with_ext :: "pystr \<Rightarrow> bool" where
  "ends_with_ext s =
     (\<exists>pre e. s = pre @ py ''.'' @ e \<and> 2 \<le> length e \<and> length e \<le> 5 \<and> list_all ext_char e)"

definition has_ext_before_delim :: "pystr \<Rightarrow> bool" where
  "has_ext_before_delim s =
     (\<exists>pre e d post. s = pre @ py ''.'' @ e @ [d] @ post \<and> 2 \<le> length e \<and> length e \<le> 5 \<and>
        list_all ext_char e \<and> (d = ch CHR ''?'' \<or> d = ch CHR ''#''))"

text \<open>
  \<open>is_file_link\<close> as the specification states it: the path is not empty, does not end in
  \<open>/\<close>, and the path, or the URL before its first \<open>?\<close> or \<open>#\<close>, ends with an extension.
\<close>

definition stated_file_link :: "pylib \<Rightarrow> pystr \<Rightarrow> bool option" where
  "stated_file_link L url =
     (case urlparse_path L (lower L url) of
        None \<Rightarrow> None
      | Some path \<Rightarrow>
          Some (path \<noteq> [] \<and> \<not> endswith path (py ''/'') \<and>
                (ends_with_ext path \<or>
                 ends_with_ext (takeWhile (\<lambda>c. c \<noteq> ch CHR ''?'' \<and> c \<noteq> ch CHR ''#'') (lower L url)))))"

text \<open>
  A redirect wrapper, as \<open>clean_google_url\<close> recognises it: the URL contains \<open>/url?q=\<close>
  or \<open>/url?url=\<close> and has a \<open>q=\<close> or \<open>url=\<close> parameter with a non-empty value. A direct
  http URL begins with \<open>http\<close> and is no redirect wrapper.
\<close>

definition redirect_wrapper :: "pystr \<Rightarrow> bool" where
  "redirect_wrapper url =
     ((contains (py ''/url?q='') url \<or> contains (py ''/url?url='') url) \<and>
      re_search wrapper_param url \<noteq> None)"

definition direct_http :: "pystr \<Rightarrow> bool" where
  "direct_http url = (startswith url (py ''http'') \<and> \<not> redirect_wrapper url)"





text \<open>The ASCII control characters: the codes 0 to 31, and 127 (DEL).\<close>

definition ascii_control :: "nat \<Rightarrow> bool" where
  "ascii_control c = (c < 32 \<or> c = 127)"

text \<open>
  The \<open>k\<close>-th name the collision loop tries: \<open>f"{base}_{k}{ext}"\<close>.
\<close>

definition numbered :: "pystr \<Rightarrow> pystr \<Rightarrow> nat \<Rightarrow> pystr" where
  "numbered base ext k = base @ py ''_'' @ str_nat k @ ext"

text \<open>
  Two servers used as examples. The first answers with the headers
  \<^verbatim>\<open>Content-Disposition: attachment; filename="report.aspx"\<close> and
  \<^verbatim>\<open>Content-Type: application/pdf\<close>; the second serves every URL as \<open>text/csv\<close> with
  the number of the request as its one byte.
\<close>

definition report_response :: response where
  "report_response =
     \<lparr>content_disposition = py ''attachment; filename='' @ [34] @ py ''report.aspx'' @ [34],
      content_type = py ''application/pdf'', content_length_ok = True,
      chunks = [[37, 80, 68, 70]], stream_ok = True\<rparr>"

definition csv_net :: "nat \<Rightarrow> pystr \<Rightarrow> fetched" where
  "csv_net idx url =
     Response \<lparr>content_disposition = [], content_type = py ''text/csv'',
       content_length_ok = True, chunks = [[idx]], stream_ok = True\<rparr>"

section \<open>URL classification: what \<open>is_file_link\<close> and \<open>clean_google_url\<close> compute\<close>

subsection \<open>The two patterns of \<open>is_file_link\<close>\<close>

lemma re_search_iff: "(re_search p s \<noteq> None) = (\<exists>i \<le> length s. p (drop i s) \<noteq> [])"
proof (induction s)
  case Nil
  then show ?case by (simp split: list.splits)
next
  case (Cons c cs)
  have "(\<exists>i \<le> length (c # cs). p (drop i (c # cs)) \<noteq> []) =
        (p (c # cs) \<noteq> [] \<or> (\<exists>i \<le> length cs. p (drop i cs) \<noteq> []))"
  proof
    assume "\<exists>i \<le> length (c # cs). p (drop i (c # cs)) \<noteq> []"
    then obtain i where i: "i \<le> length (c # cs)" "p (drop i (c # cs)) \<noteq> []" by blast
    show "p (c # cs) \<noteq> [] \<or> (\<exists>i \<le> length cs. p (drop i cs) \<noteq> [])"
    proof (cases i)
      case 0
      with i show ?thesis by simp
    next
      case (Suc j)
      with i show ?thesis by auto
    qed
  next
    assume "p (c # cs) \<noteq> [] \<or> (\<exists>i \<le> length cs. p (drop i cs) \<noteq> [])"
    then show "\<exists>i \<le> length (c # cs). p (drop i (c # cs)) \<noteq> []"
    proof
      assume "p (c # cs) \<noteq> []"
      then have "0 \<le> length (c # cs) \<and> p (drop 0 (c # cs)) \<noteq> []" by simp
      then show ?thesis by blast
    next
      assume "\<exists>i \<le> length cs. p (drop i cs) \<noteq> []"
      then obtain i where "i \<le> length cs" "p (drop i cs) \<noteq> []" by blast
      then have "Suc i \<le> length (c # cs) \<and> p (drop (Suc i) (c # cs)) \<noteq> []" by simp
      then show ?thesis by blast
    qed
  qed
  with Cons show ?case by (simp split: list.splits)
qed

lemma seq_nonempty: "(seq p q s \<noteq> []) = (\<exists>g r. (g, r) \<in> set (p s) \<and> q r \<noteq> [])"
  by (auto simp: seq_def split: prod.splits)

lemma lit_set: "set (lit w s) = (if startswith s w then {([], drop (length w) s)} else {})"
  by (simp add: lit_def)

lemma rep_set:
  "set (rep P lo (Some hi) s) =
     {([], drop k s) | k. lo \<le> k \<and> k \<le> hi \<and> k \<le> length (takeWhile P s)}"
  by (auto simp: rep_def Let_def)

lemma eos_nonempty: "(eos s \<noteq> []) = (s = [] \<or> s = [10])"
  by (simp add: eos_def)

lemma cls_nonempty: "(cls P s \<noteq> []) = (\<exists>c r. s = c # r \<and> P c)"
  by (simp add: cls_def split: list.splits)

lemma ext_at_end_nonempty:
  "(ext_at_end t \<noteq> []) =
     (\<exists>r k. t = 46 # r \<and> 2 \<le> k \<and> k \<le> 5 \<and> k \<le> length (takeWhile ext_char r) \<and>
        (drop k r = [] \<or> drop k r = [10]))"
  apply (simp add: ext_at_end_def seq_nonempty lit_set rep_set eos_nonempty startswith_def)
  apply (cases t)
   apply simp
  apply auto
  done

lemma ext_before_delim_nonempty:
  "(ext_before_delim t \<noteq> []) =
     (\<exists>r k d r'. t = 46 # r \<and> 2 \<le> k \<and> k \<le> 5 \<and> k \<le> length (takeWhile ext_char r) \<and>
        drop k r = d # r' \<and> (d = 63 \<or> d = 35))"
  apply (simp add: ext_before_delim_def seq_nonempty lit_set rep_set cls_nonempty startswith_def)
  apply (cases t)
   apply simp
  apply auto
  done


lemma take_run: "k \<le> length (takeWhile P r) \<Longrightarrow> take k r = take k (takeWhile P r)"
proof (induction r arbitrary: k)
  case Nil
  then show ?case by simp
next
  case (Cons x r)
  then show ?case by (cases k) (auto split: if_splits)
qed

lemma take_run_all: "k \<le> length (takeWhile P r) \<Longrightarrow> list_all P (take k r)"
proof -
  assume k: "k \<le> length (takeWhile P r)"
  have "set (take k (takeWhile P r)) \<subseteq> set (takeWhile P r)" by (rule set_take_subset)
  with take_run [OF k] show ?thesis by (auto simp: list_all_iff dest: set_takeWhileD)
qed

lemma run_of_all: "list_all P e \<Longrightarrow> takeWhile P (e @ r) = e @ takeWhile P r"
  by (induction e) auto

lemma search_ext_at_end:
  assumes "10 \<notin> set s"
  shows "(re_search ext_at_end s \<noteq> None) = ends_with_ext s"
proof
  assume "re_search ext_at_end s \<noteq> None"
  then have "\<exists>i \<le> length s. ext_at_end (drop i s) \<noteq> []" by (simp only: re_search_iff)
  then obtain i r k where i: "i \<le> length s" "drop i s = 46 # r" "2 \<le> k" "k \<le> 5"
      "k \<le> length (takeWhile ext_char r)" "drop k r = [] \<or> drop k r = [10]"
    unfolding ext_at_end_nonempty by blast
  have "set (drop k r) \<subseteq> set s"
    using i(2) set_drop_subset [of i s] set_drop_subset [of k r] by auto
  with assms i(6) have d: "drop k r = []" by auto
  have len: "length (takeWhile ext_char r) \<le> length r" by (rule length_takeWhile_le)
  from d have "length r \<le> k" by simp
  with i(5) len have lr: "length r = k" by simp
  then have "take k r = r" by simp
  with take_run_all [OF i(5)] have "list_all ext_char r" by simp
  moreover have "s = take i s @ py ''.'' @ r"
    using i(2) append_take_drop_id [of i s] by simp
  ultimately show "ends_with_ext s"
    using i(3,4) lr unfolding ends_with_ext_def by blast
next
  assume "ends_with_ext s"
  then obtain pre e where e: "s = pre @ py ''.'' @ e" "2 \<le> length e" "length e \<le> 5"
      "list_all ext_char e"
    unfolding ends_with_ext_def by blast
  have "takeWhile ext_char e = e" using e(4) by (simp add: list_all_iff)
  then have "length (takeWhile ext_char e) = length e" by (rule arg_cong)
  then have "ext_at_end (46 # e) \<noteq> []"
    unfolding ext_at_end_nonempty using e(2,3)
    by (intro exI [of _ e] exI [of _ "length e"]) simp
  moreover have "drop (length pre) s = 46 # e" using e(1) by simp
  moreover have "length pre \<le> length s" using e(1) by simp
  ultimately show "re_search ext_at_end s \<noteq> None"
    unfolding re_search_iff by metis
qed

lemma search_ext_before_delim:
  "(re_search ext_before_delim s \<noteq> None) = has_ext_before_delim s"
proof
  assume "re_search ext_before_delim s \<noteq> None"
  then have "\<exists>i \<le> length s. ext_before_delim (drop i s) \<noteq> []" by (simp only: re_search_iff)
  then obtain i r k d r' where i: "i \<le> length s" "drop i s = 46 # r" "2 \<le> k" "k \<le> 5"
      "k \<le> length (takeWhile ext_char r)" "drop k r = d # r'" "d = 63 \<or> d = 35"
    unfolding ext_before_delim_nonempty by blast
  have len: "length (takeWhile ext_char r) \<le> length r" by (rule length_takeWhile_le)
  with i(5) have lk: "length (take k r) = k" by simp
  have "r = take k r @ [d] @ r'" using i(6) append_take_drop_id [of k r] by simp
  then have "s = take i s @ py ''.'' @ take k r @ [d] @ r'"
    using i(2) append_take_drop_id [of i s] by simp
  then show "has_ext_before_delim s"
    using i(3,4,7) lk take_run_all [OF i(5)] unfolding has_ext_before_delim_def
    by (intro exI [of _ "take i s"] exI [of _ "take k r"] exI [of _ d] exI [of _ r']) simp
next
  assume "has_ext_before_delim s"
  then obtain pre e d post where e: "s = pre @ py ''.'' @ e @ [d] @ post" "2 \<le> length e"
      "length e \<le> 5" "list_all ext_char e" "d = ch CHR ''?'' \<or> d = ch CHR ''#''"
    unfolding has_ext_before_delim_def by blast
  have "length e \<le> length (takeWhile ext_char (e @ d # post))"
    using run_of_all [OF e(4), of "d # post"] by simp
  then have "ext_before_delim (46 # e @ d # post) \<noteq> []"
    unfolding ext_before_delim_nonempty using e(2,3,5)
    by (intro exI [of _ "e @ d # post"] exI [of _ "length e"] exI [of _ d] exI [of _ post]) simp
  moreover have "drop (length pre) s = 46 # e @ d # post" using e(1) by simp
  moreover have "length pre \<le> length s" using e(1) by simp
  ultimately show "re_search ext_before_delim s \<noteq> None"
    unfolding re_search_iff by metis
qed

lemma split_scheme_subset: "set (snd (split_scheme u)) \<subseteq> set u"
  using set_drop_subset [of _ u]
  by (auto simp: split_scheme_def split: option.splits)

lemma urlsplit_no_newline:
  assumes "urlsplit L u = Some (scheme, p)"
  shows "10 \<notin> set p"
proof -
  define u2 where "u2 = filter (\<lambda>c. c \<noteq> 9 \<and> c \<noteq> 13 \<and> c \<noteq> 10) (dropWhile (\<lambda>c. c \<le> 32) u)"
  define u3 where "u3 = snd (split_scheme u2)"
  define u4 where "u4 = (if take 2 u3 = py ''//'' then snd (splitnetloc u3) else u3)"
  have p: "p = takeWhile (\<lambda>c. c \<noteq> ch CHR ''?'') (takeWhile (\<lambda>c. c \<noteq> ch CHR ''#'') u4)"
    using assms
    by (auto simp: urlsplit_def Let_def u2_def u3_def u4_def split: prod.splits if_splits)
  have "set u4 \<subseteq> set u3"
    using set_drop_subset [of 2 u3]
    by (auto simp: u4_def splitnetloc_def Let_def dest!: set_dropWhileD)
  moreover have "set u3 \<subseteq> set u2" unfolding u3_def by (rule split_scheme_subset)
  moreover have "10 \<notin> set u2" by (simp add: u2_def)
  moreover have "set p \<subseteq> set u4" unfolding p by (auto dest!: set_takeWhileD)
  ultimately show ?thesis by blast
qed

lemma splitparams_subset: "set (fst (splitparams p)) \<subseteq> set p"
  using set_take_subset [of _ p]
  by (auto simp: splitparams_def split: option.splits)

lemma urlparse_path_no_newline:
  assumes "urlparse_path L u = Some path"
  shows "10 \<notin> set path"
proof -
  from assms obtain scheme p where sp: "urlsplit L u = Some (scheme, p)"
      and "path = fst (splitparams p) \<or> path = p"
    by (auto simp: urlparse_path_def split: option.splits if_splits)
  with urlsplit_no_newline [OF sp] splitparams_subset [of p] show ?thesis by auto
qed

text \<open>
  Claim C2, as amended. \<open>is_file_link\<close> raises exactly when \<open>urlparse\<close> does, and
  otherwise returns true if and only if the path of the lower-cased URL is not empty, does
  not end in \<open>/\<close>, and either the path ends with a dot and 2 to 5 characters of
  \<open>[a-z0-9]\<close>, or the lower-cased URL contains, at any position, a dot and 2 to 5 such
  characters immediately followed by \<open>?\<close> or \<open>#\<close>.
\<close>

theorem is_file_link_iff:
  "is_file_link L url =
     (case urlparse_path L (lower L url) of
        None \<Rightarrow> None
      | Some path \<Rightarrow>
          Some (path \<noteq> [] \<and> \<not> endswith path (py ''/'') \<and>
                (ends_with_ext path \<or> has_ext_before_delim (lower L url))))"
proof (cases "urlparse_path L (lower L url)")
  case None
  then show ?thesis by (simp add: is_file_link_def)
next
  case (Some path)
  have a: "(re_search ext_at_end path \<noteq> None) = ends_with_ext path"
    by (rule search_ext_at_end [OF urlparse_path_no_newline [OF Some]])
  have b: "(re_search ext_before_delim (lower L url) \<noteq> None) = has_ext_before_delim (lower L url)"
    by (rule search_ext_before_delim)
  show ?thesis
    using a b Some by (auto simp: is_file_link_def Let_def)
qed

theorem is_file_link_iff_witness:
  "is_file_link plain_lib (py ''https://Example.com/a/Report.PDF'') = Some True \<and>
   (ends_with_ext (py ''/a/report.pdf'') \<or>
    has_ext_before_delim (lower plain_lib (py ''https://Example.com/a/Report.PDF'')))"
proof -
  have p: "urlparse_path plain_lib (lower plain_lib (py ''https://Example.com/a/Report.PDF''))
        = Some (py ''/a/report.pdf'')"
    by code_simp
  have t: "is_file_link plain_lib (py ''https://Example.com/a/Report.PDF'') = Some True"
    by code_simp
  show ?thesis
    using is_file_link_iff [of plain_lib "py ''https://Example.com/a/Report.PDF''"] p t
    by auto
qed

text \<open>
  Claim C2 as stated fails: the second pattern is searched in the whole URL, so an
  extension inside the query string, followed by \<open>#\<close>, makes a link a file link although
  neither its path nor the URL before the first \<open>?\<close> ends with an extension.
\<close>

theorem is_file_link_counterexample:
  "is_file_link plain_lib (py ''https://example.com/view?doc=report.pdf#page=2'') = Some True \<and>
   stated_file_link plain_lib (py ''https://example.com/view?doc=report.pdf#page=2'') = Some False"
proof -
  have p: "urlparse_path plain_lib (lower plain_lib (py ''https://example.com/view?doc=report.pdf#page=2''))
        = Some (py ''/view'')"
    by code_simp
  have l: "takeWhile (\<lambda>c. c \<noteq> ch CHR ''?'' \<and> c \<noteq> ch CHR ''#'')
             (lower plain_lib (py ''https://example.com/view?doc=report.pdf#page=2''))
        = py ''https://example.com/view''"
    by code_simp
  have a: "re_search ext_at_end (py ''/view'') = None" by code_simp
  have b: "re_search ext_at_end (py ''https://example.com/view'') = None" by code_simp
  have "\<not> ends_with_ext (py ''/view'')"
    using search_ext_at_end [of "py ''/view''"] a by simp
  moreover have "\<not> ends_with_ext (py ''https://example.com/view'')"
    using search_ext_at_end [of "py ''https://example.com/view''"] b by simp
  ultimately have "stated_file_link plain_lib (py ''https://example.com/view?doc=report.pdf#page=2'') = Some False"
    unfolding stated_file_link_def p l by simp
  moreover have "is_file_link plain_lib (py ''https://example.com/view?doc=report.pdf#page=2'') = Some True"
    by code_simp
  ultimately show ?thesis by simp
qed

subsection \<open>\<open>clean_google_url\<close>\<close>

text \<open>
  Claim C4 as stated fails: a URL that begins with \<open>http\<close> and wraps a target is
  replaced by the target, and the target need not be a fixed point; here it is not even
  an absolute URL, so the second application returns \<open>None\<close>.
\<close>

theorem normalize_counterexample:
  "startswith (py ''http://g.co/url?q=abc'') (py ''http'') \<and>
   Option.bind (clean_google_url plain_lib (py ''http://g.co/url?q=abc'')) (clean_google_url plain_lib)
     \<noteq> clean_google_url plain_lib (py ''http://g.co/url?q=abc'')"
  by code_simp

lemma re_search_Some:
  "re_search p s = Some m \<Longrightarrow> \<exists>i \<le> length s. m \<in> set (p (drop i s))"
proof (induction s)
  case Nil
  then show ?case by (auto split: list.splits)
next
  case (Cons c cs)
  show ?case
  proof (cases "p (c # cs)")
    case Nil
    with Cons.prems have "re_search p cs = Some m" by simp
    from Cons.IH [OF this] obtain i where "i \<le> length cs" and "m \<in> set (p (drop i cs))"
      by blast
    then have "Suc i \<le> length (c # cs) \<and> m \<in> set (p (drop (Suc i) (c # cs)))" by simp
    then show ?thesis by blast
  next
    case (Cons m' ms)
    with Cons.prems have "m \<in> set (p (drop 0 (c # cs)))" by simp
    then show ?thesis by blast
  qed
qed

lemma seq_set:
  "set (seq p q s) = {(g @ g', r') | g r g' r'. (g, r) \<in> set (p s) \<and> (g', r') \<in> set (q r)}"
  by (force simp: seq_def)

lemma grp_rep_set:
  "(g, r) \<in> set (grp (rep P lo hi) s) \<Longrightarrow> \<exists>k. g = [take k s]"
  by (auto simp: grp_def rep_def Let_def)

lemma wrapper_param_group:
  assumes "m \<in> set (wrapper_param t)"
  shows "\<exists>j k. 0 < j \<and> j \<le> length t \<and> group1 m = take k (drop j t)"
proof -
  from assms obtain g1 r1 g2 r2 g3 r3 g4 r4
    where a: "(g1, r1) \<in> set (cls (\<lambda>c. c = ch CHR ''?'' \<or> c = ch CHR ''&'') t)"
      and b: "(g2, r2) \<in> set (alt (lit (py ''q'')) (lit (py ''url'')) r1)"
      and c: "(g3, r3) \<in> set (lit (py ''='') r2)"
      and d: "(g4, r4) \<in> set (grp (rep (\<lambda>c. c \<noteq> ch CHR ''&'') 1 None) r3)"
      and m: "m = (g1 @ g2 @ g3 @ g4, r4)"
    unfolding wrapper_param_def seq_set by blast
  from a obtain c0 where t: "t = c0 # r1" and g1: "g1 = []"
    by (auto simp: cls_def split: list.splits if_splits)
  from b obtain a1 where r2: "r2 = drop a1 r1" and g2: "g2 = []"
    by (auto simp: alt_def lit_def split: if_splits)
  from c obtain r3': "r3 = drop 1 r2" and g3: "g3 = []"
    by (auto simp: lit_def split: if_splits)
  from grp_rep_set [OF d] obtain k where g4: "g4 = [take k r3]" by blast
  have r3: "r3 = drop (Suc (Suc a1)) t" using t r2 r3' by simp
  have gm: "group1 m = take k r3" using m g1 g2 g3 g4 by (simp add: group1_def)
  from d have "r3 \<noteq> []"
    by (auto simp: grp_def rep_def Let_def)
  with r3 have "Suc (Suc a1) \<le> length t" by (cases "Suc (Suc a1) \<le> length t") simp_all
  with r3 gm have "0 < Suc (Suc a1) \<and> Suc (Suc a1) \<le> length t \<and>
      group1 m = take k (drop (Suc (Suc a1)) t)" by simp
  then show ?thesis by blast
qed

lemma wrapper_target_shorter:
  assumes "re_search wrapper_param s = Some m"
  shows "length (group1 m) < length s \<and> set (group1 m) \<subseteq> set s"
proof -
  from re_search_Some [OF assms] obtain i where i: "i \<le> length s"
    and m: "m \<in> set (wrapper_param (drop i s))" by blast
  from wrapper_param_group [OF m] obtain j k where j: "0 < j" "j \<le> length (drop i s)"
    and g: "group1 m = take k (drop j (drop i s))" by blast
  from j i have "length (drop j (drop i s)) < length s" by simp
  with g have "length (group1 m) < length s" by simp
  moreover have "set (group1 m) \<subseteq> set s"
    unfolding g by (meson set_take_subset set_drop_subset subset_trans)
  ultimately show ?thesis by blast
qed

lemma direct_http_fixed: "direct_http v \<Longrightarrow> clean_google_url L v = Some v"
  by (auto simp: direct_http_def redirect_wrapper_def clean_google_url_def Let_def
           split: option.splits)

lemma fixed_direct_http:
  assumes "clean_google_url L v = Some v" and "ch CHR ''%'' \<notin> set v"
  shows "direct_http v"
proof (cases "redirect_wrapper v")
  case True
  then obtain m where m: "re_search wrapper_param v = Some m"
    by (auto simp: redirect_wrapper_def)
  with True assms(1) have "unquote L (group1 m) = v"
    by (auto simp: redirect_wrapper_def clean_google_url_def Let_def)
  moreover from wrapper_target_shorter [OF m] assms(2)
  have "ch CHR ''%'' \<notin> set (group1 m)" and "length (group1 m) < length v" by auto
  ultimately show ?thesis by (simp add: unquote_def)
next
  case False
  with assms(1) show ?thesis
    by (auto simp: direct_http_def redirect_wrapper_def clean_google_url_def Let_def
             split: if_splits option.splits)
qed

lemma http_not_none: "startswith u (py ''http'') \<Longrightarrow> clean_google_url L u \<noteq> None"
  by (auto simp: clean_google_url_def Let_def split: option.splits)

text \<open>
  Claim C4, as amended. \<open>clean_google_url\<close> returns a string for every URL that begins
  with \<open>http\<close>, and \<open>normalize(normalize(u)) = normalize(u)\<close> holds for every URL \<open>u\<close>
  whose normal form is a direct http URL: it begins with \<open>http\<close> and is not itself a
  redirect wrapper. That covers every direct http URL and every wrapper of one. For a
  normal form without a percent sign the condition is also necessary.
\<close>

theorem normalize_idempotent:
  "(startswith u (py ''http'') \<longrightarrow> clean_google_url L u \<noteq> None) \<and>
   (clean_google_url L u = Some v \<and> direct_http v
      \<longrightarrow> Option.bind (clean_google_url L u) (clean_google_url L) = clean_google_url L u) \<and>
   (clean_google_url L u = Some v \<and> ch CHR ''%'' \<notin> set v \<and>
    Option.bind (clean_google_url L u) (clean_google_url L) = clean_google_url L u
      \<longrightarrow> direct_http v)"
proof (intro conjI impI)
  assume "startswith u (py ''http'')"
  then show "clean_google_url L u \<noteq> None" by (rule http_not_none)
next
  assume "clean_google_url L u = Some v \<and> direct_http v"
  then show "Option.bind (clean_google_url L u) (clean_google_url L) = clean_google_url L u"
    by (simp add: direct_http_fixed)
next
  assume a: "clean_google_url L u = Some v \<and> ch CHR ''%'' \<notin> set v \<and>
    Option.bind (clean_google_url L u) (clean_google_url L) = clean_google_url L u"
  then have "clean_google_url L u = Some v"
    and "Option.bind (clean_google_url L u) (clean_google_url L) = clean_google_url L u"
    and p: "ch CHR ''%'' \<notin> set v" by blast+
  then have "clean_google_url L v = Some v" by simp
  then show "direct_http v" using p by (rule fixed_direct_http)
qed

theorem normalize_idempotent_witness:
  "startswith (py ''https://www.google.com/url?q=https://example.com/file.pdf&sa=U'') (py ''http'') \<and>
   clean_google_url plain_lib (py ''https://www.google.com/url?q=https://example.com/file.pdf&sa=U'')
     = Some (py ''https://example.com/file.pdf'') \<and>
   direct_http (py ''https://example.com/file.pdf'') \<and>
   ch CHR ''%'' \<notin> set (py ''https://example.com/file.pdf'') \<and>
   Option.bind
     (clean_google_url plain_lib (py ''https://www.google.com/url?q=https://example.com/file.pdf&sa=U''))
     (clean_google_url plain_lib)
     = clean_google_url plain_lib (py ''https://www.google.com/url?q=https://example.com/file.pdf&sa=U'')"
proof -
  have a: "startswith (py ''https://www.google.com/url?q=https://example.com/file.pdf&sa=U'') (py ''http'')"
    by code_simp
  have b: "clean_google_url plain_lib (py ''https://www.google.com/url?q=https://example.com/file.pdf&sa=U'')
     = Some (py ''https://example.com/file.pdf'')" by code_simp
  have c: "direct_http (py ''https://example.com/file.pdf'')" by code_simp
  have d: "ch CHR ''%'' \<notin> set (py ''https://example.com/file.pdf'')" by code_simp
  from normalize_idempotent [of "py ''https://www.google.com/url?q=https://example.com/file.pdf&sa=U''"
      plain_lib "py ''https://example.com/file.pdf''"] a b c d
  show ?thesis by blast
qed

subsection \<open>The order of the two checks in the crawler\<close>

text \<open>
  Claim C1 says that a link is normalised first and classified after. The loop classifies
  the raw \<open>href\<close> first: the redirect wrapper of a PDF, the example in the comment of
  \<open>clean_google_url\<close>, is no file link as it stands (its path is \<open>/url\<close>), so it is
  dropped, although its target is a file link.
\<close>

theorem wrapped_file_link_dropped:
  "clean_google_url plain_lib (py ''https://www.google.com/url?q=https://example.com/file.pdf&sa=U'')
     = Some (py ''https://example.com/file.pdf'') \<and>
   is_file_link plain_lib (py ''https://example.com/file.pdf'') = Some True \<and>
   is_file_link plain_lib (py ''https://www.google.com/url?q=https://example.com/file.pdf&sa=U'')
     = Some False \<and>
   add_file_links plain_lib [py ''https://www.google.com/url?q=https://example.com/file.pdf&sa=U''] {}
     = ({}, False)"
  by code_simp

section \<open>The crawler: page cap and result list\<close>

lemma visit_iterations: "iterations (fst (visit L pg st)) = Suc (iterations st)"
  by (simp add: visit_def Let_def split: page.splits option.splits bool.splits)

lemma crawl_pages_iterations:
  "iterations (crawl_pages L web max_pages page_num st)
     \<le> iterations st + nat (max_pages - page_num)"
proof (induction L web max_pages page_num st rule: crawl_pages.induct)
  case (1 L web max_pages page_num st)
  show ?case
  proof (cases "page_num < max_pages \<and> snd (visit L (web page_num) st)")
    case True
    then have "iterations (crawl_pages L web max_pages page_num st)
        = iterations (crawl_pages L web max_pages (page_num + 1) (fst (visit L (web page_num) st)))"
      by (subst crawl_pages.simps) simp
    also have "\<dots> \<le> iterations (fst (visit L (web page_num) st)) + nat (max_pages - (page_num + 1))"
      using True 1 by simp
    also have "\<dots> \<le> iterations st + nat (max_pages - page_num)"
      using True by (simp add: visit_iterations, arith)
    finally show ?thesis .
  next
    case False
    then show ?thesis
      by (subst crawl_pages.simps) (auto simp: visit_iterations)
  qed
qed

text \<open>
  Claim C9. For every \<open>max_pages\<close> and whatever the pages show (in particular when each of
  them has the \<open>next\<close> control), the loop of the crawler runs its body at most
  \<open>max_pages\<close> times; \<open>crawl_pages\<close> is a total function, so the loop ends.
\<close>

theorem crawl_within_max_pages:
  "iterations (crawl L web max_pages) \<le> nat max_pages"
  using crawl_pages_iterations [of L web max_pages 0 "\<lparr>file_links = {}, iterations = 0\<rparr>"]
  by (simp add: crawl_def)

lemma add_file_links_finite:
  "finite fl \<Longrightarrow> finite (fst (add_file_links L links fl))"
  by (induction L links fl rule: add_file_links.induct)
     (auto split: option.splits bool.splits)

lemma visit_finite: "finite (file_links st) \<Longrightarrow> finite (file_links (fst (visit L pg st)))"
  by (simp add: visit_def Let_def add_file_links_finite
        split: page.splits option.splits bool.splits)

lemma crawl_pages_finite:
  "finite (file_links st) \<Longrightarrow> finite (file_links (crawl_pages L web max_pages page_num st))"
proof (induction L web max_pages page_num st rule: crawl_pages.induct)
  case (1 L web max_pages page_num st)
  then show ?case
    by (subst crawl_pages.simps) (simp add: visit_finite)
qed

lemma crawl_finite: "finite (file_links (crawl L web max_pages))"
  by (simp add: crawl_def crawl_pages_finite)

text \<open>
  Claim C10. The list the crawler returns has no duplicates, is sorted in the
  lexicographic order of strings, and its elements are exactly the links accumulated in
  the set, however many pages repeat a link.
\<close>

theorem result_sorted_distinct:
  "distinct (extract_file_links L web max_pages) \<and>
   sorted (extract_file_links L web max_pages) \<and>
   set (extract_file_links L web max_pages) = file_links (crawl L web max_pages)"
  by (simp add: extract_file_links_def crawl_finite)

subsection \<open>Where the links of the result come from\<close>









section \<open>Filenames: what \<open>sanitize_filename\<close> guarantees\<close>

lemma replace_invalid_map:
  "replace_invalid f =
     map (\<lambda>x. if x \<in> set invalid_chars \<or> x = ch CHR ''/'' \<or> x = 92 then ch CHR ''_'' else x) f"
  by (induction f) (auto simp: replace_invalid_def invalid_chars_def replace_chr_def)

lemma replace_invalid_clean:
  "c \<in> set (replace_invalid f) \<Longrightarrow> c \<notin> set invalid_chars \<and> c \<noteq> ch CHR ''/'' \<and> c \<noteq> 92"
  unfolding replace_invalid_map by (auto simp: invalid_chars_def)

lemma strip_chars_subset: "set (strip_chars cs s) \<subseteq> set s"
  by (auto simp: strip_chars_def dest!: set_dropWhileD)

lemma strip_chars_hd:
  assumes "strip_chars cs s \<noteq> []"
  shows "hd (strip_chars cs s) \<notin> set cs"
proof -
  let ?P = "\<lambda>c. c \<in> set cs"
  let ?ys = "dropWhile ?P s"
  have "rev (dropWhile ?P (rev ?ys)) @ rev (takeWhile ?P (rev ?ys))
          = rev (takeWhile ?P (rev ?ys) @ dropWhile ?P (rev ?ys))"
    by (simp only: rev_append)
  also have "\<dots> = rev (rev ?ys)" by (simp only: takeWhile_dropWhile_id)
  finally have ys: "?ys = strip_chars cs s @ rev (takeWhile ?P (rev ?ys))"
    by (simp add: strip_chars_def)
  have ne: "?ys \<noteq> []"
  proof
    assume e: "?ys = []"
    have "strip_chars cs s = rev (dropWhile ?P (rev ?ys))" by (simp only: strip_chars_def)
    also have "\<dots> = []" unfolding e by simp
    finally show False using assms by simp
  qed
  then have "\<not> ?P (hd ?ys)" by (rule hd_dropWhile)
  moreover
  from ys have "hd ?ys = hd (strip_chars cs s @ rev (takeWhile ?P (rev ?ys)))"
    by (rule arg_cong)
  then have "hd ?ys = hd (strip_chars cs s)"
    by (simp only: hd_append2 [OF assms])
  ultimately show ?thesis by simp
qed

lemma strip_chars_last:
  assumes "strip_chars cs s \<noteq> []"
  shows "last (strip_chars cs s) \<notin> set cs"
proof -
  let ?P = "\<lambda>c. c \<in> set cs"
  let ?zs = "dropWhile ?P (rev (dropWhile ?P s))"
  from assms have ne: "?zs \<noteq> []" by (simp add: strip_chars_def)
  then have "\<not> ?P (hd ?zs)" by (rule hd_dropWhile)
  moreover have "last (strip_chars cs s) = hd ?zs"
    using ne by (simp add: strip_chars_def last_rev)
  ultimately show ?thesis by simp
qed

lemma trimmed_name_chars:
  "c \<in> set (trimmed_name f) \<Longrightarrow>
     c \<notin> set invalid_chars \<and> c \<noteq> ch CHR ''/'' \<and> c \<noteq> 92 \<and> 32 \<le> c"
proof -
  assume c: "c \<in> set (trimmed_name f)"
  let ?g = "filter (\<lambda>char. 32 \<le> char) (replace_invalid f)"
  show ?thesis
  proof (cases "strip_chars (py ''. '') ?g = []")
    case True
    with c have "c \<in> set (py ''file'')" by (simp add: trimmed_name_def Let_def)
    then show ?thesis by (auto simp: invalid_chars_def)
  next
    case False
    with c have "c \<in> set (strip_chars (py ''. '') ?g)" by (simp add: trimmed_name_def Let_def)
    with strip_chars_subset have "c \<in> set ?g" by blast
    then show ?thesis using replace_invalid_clean [of c f] by simp
  qed
qed

lemma trimmed_name_ends:
  "trimmed_name f \<noteq> [] \<and> hd (trimmed_name f) \<notin> set (py ''. '') \<and>
   last (trimmed_name f) \<notin> set (py ''. '')"
proof (cases "strip_chars (py ''. '') (filter (\<lambda>char. 32 \<le> char) (replace_invalid f)) = []")
  case True
  then show ?thesis by (simp add: trimmed_name_def Let_def)
next
  case False
  then show ?thesis
    using strip_chars_hd [OF False] strip_chars_last [OF False]
    by (simp add: trimmed_name_def Let_def)
qed

lemma sanitize_filename_cases:
  "sanitize_filename L f = trimmed_name f \<and>
     upper L (fst (splitext (trimmed_name f))) \<notin> set reserved_names \<or>
   sanitize_filename L f = py ''_'' @ trimmed_name f \<and>
     upper L (fst (splitext (trimmed_name f))) \<in> set reserved_names"
  by (simp add: sanitize_filename_def Let_def)

lemma splitext_stem_hd:
  assumes "p \<noteq> []"
  shows "fst (splitext p) \<noteq> [] \<and> hd (fst (splitext p)) = hd p"
proof (cases "rfind_chr (ch CHR ''.'') p")
  case None
  with assms show ?thesis by (simp add: splitext_def Let_def)
next
  case (Some d)
  show ?thesis
  proof (cases d)
    case 0
    with Some assms show ?thesis by (simp add: splitext_def Let_def)
  next
    case (Suc n)
    with Some assms show ?thesis by (cases p) (simp_all add: splitext_def Let_def)
  qed
qed

lemma reserved_names_hd: "x \<in> set reserved_names \<Longrightarrow> hd x \<noteq> 95"
  by (auto simp: reserved_names_def)

lemma prefixed_not_reserved:
  assumes "isascii (fst (splitext (95 # t)))"
  shows "upper L (fst (splitext (95 # t))) \<notin> set reserved_names"
proof
  let ?s = "fst (splitext (95 # t))"
  assume r: "upper L ?s \<in> set reserved_names"
  from splitext_stem_hd [of "95 # t"] have ne: "?s \<noteq> []" and h: "hd ?s = 95" by simp_all
  from assms have "upper L ?s = map ascii_upper ?s" by (simp add: upper_def)
  with ne h have "hd (upper L ?s) = 95" by (simp add: hd_map ascii_upper_def)
  with reserved_names_hd [OF r] show False by simp
qed

text \<open>
  Claim C5, as amended. For every input the sanitized name contains none of the characters
  \<open><>:"|?*\<close>, no slash and no backslash, and no character with a code below 32; it is not
  empty and neither begins nor ends with a dot or a space. A trimmed name whose part before
  the extension is, in upper case, a reserved device name gets \<open>_\<close> in front; and the part
  before the extension of the result, when it is ASCII, is in upper case no reserved device
  name.
\<close>

theorem sanitize_filename_safe:
  "(\<forall>c \<in> set (sanitize_filename L f).
      c \<notin> set invalid_chars \<and> c \<noteq> ch CHR ''/'' \<and> c \<noteq> 92 \<and> 32 \<le> c) \<and>
   sanitize_filename L f \<noteq> [] \<and>
   hd (sanitize_filename L f) \<notin> set (py ''. '') \<and>
   last (sanitize_filename L f) \<notin> set (py ''. '') \<and>
   (upper L (fst (splitext (trimmed_name f))) \<in> set reserved_names
      \<longrightarrow> sanitize_filename L f = py ''_'' @ trimmed_name f) \<and>
   (isascii (fst (splitext (sanitize_filename L f)))
      \<longrightarrow> upper L (fst (splitext (sanitize_filename L f))) \<notin> set reserved_names)"
proof -
  from sanitize_filename_cases [of L f] show ?thesis
  proof
    assume a: "sanitize_filename L f = trimmed_name f \<and>
      upper L (fst (splitext (trimmed_name f))) \<notin> set reserved_names"
    then show ?thesis
      using trimmed_name_chars [of _ f] trimmed_name_ends [of f] by auto
  next
    assume a: "sanitize_filename L f = py ''_'' @ trimmed_name f \<and>
      upper L (fst (splitext (trimmed_name f))) \<in> set reserved_names"
    have "\<forall>c \<in> set (py ''_'' @ trimmed_name f).
            c \<notin> set invalid_chars \<and> c \<noteq> ch CHR ''/'' \<and> c \<noteq> 92 \<and> 32 \<le> c"
      using trimmed_name_chars [of _ f] by (auto simp: invalid_chars_def)
    moreover have "last (py ''_'' @ trimmed_name f) \<notin> set (py ''. '')"
      using trimmed_name_ends [of f] by simp
    moreover have "isascii (fst (splitext (py ''_'' @ trimmed_name f)))
      \<longrightarrow> upper L (fst (splitext (py ''_'' @ trimmed_name f))) \<notin> set reserved_names"
      using prefixed_not_reserved [of "trimmed_name f" L] by simp
    ultimately show ?thesis using a by simp
  qed
qed

theorem sanitize_filename_safe_witness:
  "sanitize_filename plain_lib (py ''con.txt'') = py ''_con.txt'' \<and>
   upper plain_lib (fst (splitext (trimmed_name (py ''con.txt'')))) \<in> set reserved_names \<and>
   isascii (fst (splitext (sanitize_filename plain_lib (py ''con.txt'')))) \<and>
   upper plain_lib (fst (splitext (sanitize_filename plain_lib (py ''con.txt''))))
     \<notin> set reserved_names \<and>
   sanitize_filename plain_lib (py '' ..a<b>/c?.'') = py ''a_b__c_'' \<and>
   hd (sanitize_filename plain_lib (py '' ..a<b>/c?.'')) \<notin> set (py ''. '')"
proof -
  have a: "sanitize_filename plain_lib (py ''con.txt'') = py ''_con.txt''" by code_simp
  have b: "upper plain_lib (fst (splitext (trimmed_name (py ''con.txt'')))) \<in> set reserved_names"
    by code_simp
  have c: "isascii (fst (splitext (sanitize_filename plain_lib (py ''con.txt''))))" by code_simp
  have d: "sanitize_filename plain_lib (py '' ..a<b>/c?.'') = py ''a_b__c_''" by code_simp
  from sanitize_filename_safe [of plain_lib "py ''con.txt''"]
    sanitize_filename_safe [of plain_lib "py '' ..a<b>/c?.''"] a b c d
  show ?thesis by blast
qed

text \<open>
  Claim C5 as stated fails for one ASCII control character: only the codes below 32 are
  removed, so DEL (127) stays in the name.
\<close>

theorem sanitize_filename_del_counterexample:
  "ascii_control 127 \<and> 127 \<in> set (sanitize_filename plain_lib (py ''a'' @ [127] @ py ''.pdf''))"
  by code_simp

section \<open>Downloads: the name of a file and the directory\<close>

subsection \<open>The collision loop\<close>

lemma str_nat_value: "fold (\<lambda>d n. 10 * n + (d - 48)) (str_nat k) 0 = k"
proof (induction k rule: str_nat.induct)
  case (1 n)
  show ?case
  proof (cases "n < 10")
    case True
    then show ?thesis by (subst str_nat.simps) simp
  next
    case False
    with 1 show ?thesis by (subst str_nat.simps) simp
  qed
qed

lemma str_nat_inj: "str_nat a = str_nat b \<Longrightarrow> a = b"
  by (metis str_nat_value)

lemma numbered_inj: "numbered base ext a = numbered base ext b \<Longrightarrow> a = b"
  by (simp add: numbered_def str_nat_inj)

lemma free_name_run:
  "\<lbrakk>\<forall>j. c \<le> j \<and> j < k \<longrightarrow> exists (numbered base ext j); \<not> exists (numbered base ext k); c \<le> k\<rbrakk>
   \<Longrightarrow> free_name exists base ext (Suc c) (numbered base ext c) = Some (numbered base ext k)"
proof (induction "k - c" arbitrary: c)
  case 0
  then have "c = k" by simp
  with 0 show ?case by (subst free_name.simps) simp
next
  case (Suc d)
  then have lt: "c < k" by simp
  with Suc.prems have ex: "exists (numbered base ext c)" by simp
  have "free_name exists base ext (Suc c) (numbered base ext c)
      = free_name exists base ext (Suc (Suc c)) (numbered base ext (Suc c))"
    using ex by (subst free_name.simps) (simp add: numbered_def)
  also have "\<dots> = Some (numbered base ext k)"
    using Suc.hyps Suc.prems lt by (intro Suc.hyps(1)) auto
  finally show ?case .
qed

lemma numbered_free:
  assumes "finite {n. exists n}"
  shows "\<exists>k\<ge>1. \<not> exists (numbered base ext k)"
proof (rule ccontr)
  assume "\<not> (\<exists>k\<ge>1. \<not> exists (numbered base ext k))"
  then have "numbered base ext ` {1..} \<subseteq> {n. exists n}" by auto
  with assms have "finite (numbered base ext ` {1..})" by (rule rev_finite_subset)
  moreover have "inj_on (numbered base ext) {1..}"
    by (auto simp: inj_on_def dest: numbered_inj)
  ultimately have "finite {1::nat ..}" by (rule finite_imageD)
  then show False by (simp add: infinite_Ici)
qed

lemma unique_name_total:
  assumes "finite {n. exists n}"
  shows "\<exists>r. unique_name exists filename = Some r \<and> \<not> exists r \<and>
           (if exists filename
            then \<exists>k\<ge>1. r = numbered (fst (splitext filename)) (snd (splitext filename)) k \<and>
                   (\<forall>j. 1 \<le> j \<and> j < k \<longrightarrow>
                      exists (numbered (fst (splitext filename)) (snd (splitext filename)) j))
            else r = filename)"
proof (cases "exists filename")
  case False
  then show ?thesis by (simp add: unique_name_def)
next
  case True
  let ?b = "fst (splitext filename)" and ?e = "snd (splitext filename)"
  define k where "k = (LEAST k. 1 \<le> k \<and> \<not> exists (numbered ?b ?e k))"
  from numbered_free [OF assms, of ?b ?e]
  have ex: "\<exists>k. 1 \<le> k \<and> \<not> exists (numbered ?b ?e k)" by blast
  then have k: "1 \<le> k \<and> \<not> exists (numbered ?b ?e k)" unfolding k_def by (rule LeastI_ex)
  have least: "\<And>j. 1 \<le> j \<and> j < k \<Longrightarrow> exists (numbered ?b ?e j)"
  proof (rule ccontr)
    fix j assume j: "1 \<le> j \<and> j < k" and "\<not> exists (numbered ?b ?e j)"
    then have "k \<le> j" unfolding k_def by (intro Least_le) simp
    with j show False by simp
  qed
  have "unique_name exists filename = free_name exists ?b ?e 1 filename"
    using True by (simp add: unique_name_def)
  also have "\<dots> = free_name exists ?b ?e (Suc 1) (numbered ?b ?e 1)"
    using True by (subst free_name.simps) (simp add: numbered_def)
  also have "\<dots> = Some (numbered ?b ?e k)"
    using k least by (intro free_name_run) auto
  finally show ?thesis using True k least by auto
qed

lemma free_name_free:
  assumes "free_name exists base ext counter filename = Some r"
  shows "\<not> exists r"
proof (rule free_name.raw_induct
        [where P = "\<lambda>exists base ext counter filename r. \<not> exists r", OF _ assms],
       goal_cases)
  case (1 f e b x c n y)
  show ?case
  proof (cases "e n")
    case True
    with 1(2) have "f e b x (Suc c) (b @ py ''_'' @ str_nat c @ x) = Some y" by simp
    then show ?thesis by (rule 1(1))
  next
    case False
    with 1(2) show ?thesis by simp
  qed
qed

lemma unique_name_free: "unique_name exists filename = Some r \<Longrightarrow> \<not> exists r"
  by (auto simp: unique_name_def split: if_splits dest: free_name_free)

lemma download_one_keeps:
  assumes "download_one L idx url got st = Some st'" and "files st n = Some b"
  shows "files st' n = Some b"
  using assms
  by (auto simp: download_one_def Let_def failed_def
           split: fetched.splits option.splits if_splits dest!: unique_name_free)

subsection \<open>The extension of a dynamic endpoint\<close>

lemma mime_to_ext_dot: "map_of mime_to_ext ct = Some e \<Longrightarrow> ch CHR ''.'' \<in> set e"
  by (auto simp: mime_to_ext_def split: if_splits)

lemma correct_ext_of_table:
  "map_of mime_to_ext (lower L (strip (takeWhile (\<lambda>c. c \<noteq> ch CHR '';'') h))) = Some e
   \<Longrightarrow> correct_ext_of L h = e"
  by (simp add: correct_ext_of_def Let_def)

lemma lower_Nil: "lower L [] = []"
  by (simp add: lower_def isascii_def)

lemma fix_extension_replaces:
  assumes "ch CHR ''.'' \<in> set correct_ext"
    and "lower L (snd (splitext filename)) \<in> set dynamic_exts"
    and "lower L (snd (splitext filename)) \<noteq> correct_ext"
  shows "fix_extension L filename correct_ext = fst (splitext filename) @ correct_ext"
proof -
  have "filename \<noteq> []"
  proof
    assume "filename = []"
    then have "lower L (snd (splitext filename)) = []" by (simp add: splitext_def lower_Nil)
    with assms(2) show False by (simp add: dynamic_exts_def)
  qed
  moreover from assms(1) have "correct_ext \<noteq> []" by auto
  ultimately show ?thesis using assms by (simp add: fix_extension_def Let_def)
qed

lemma report_aspx_resolved:
  "resolve_filename L idx url (content_disposition report_response) (content_type report_response)
     = Some (py ''report.pdf'')"
  by code_simp

lemma splitext_report: "splitext (py ''report.pdf'') = (py ''report'', py ''.pdf'')"
  by code_simp

lemma endswith_last: "endswith s w \<Longrightarrow> w \<noteq> [] \<Longrightarrow> last s = last w"
proof -
  assume e: "endswith s w" and w: "w \<noteq> []"
  then have d: "drop (length s - length w) s = w" and l: "length w \<le> length s"
    by (simp_all add: endswith_def)
  from w l have "length s - length w < length s" by (cases w) auto
  then have "last (drop (length s - length w) s) = last s" by (rule last_drop)
  with d show ?thesis by simp
qed

lemma numbered_ends: "endswith (numbered base ext k) ext"
  by (simp add: numbered_def endswith_def)

lemma numbered_pdf_not_aspx: "\<not> endswith (numbered base (py ''.pdf'') k) (py ''.aspx'')"
proof
  assume "endswith (numbered base (py ''.pdf'') k) (py ''.aspx'')"
  then have "last (numbered base (py ''.pdf'') k) = last (py ''.aspx'')"
    by (rule endswith_last) simp
  then show False by (simp add: numbered_def)
qed

subsection \<open>One download and the whole loop\<close>

lemma download_one_files:
  assumes "resolve_filename L idx url (content_disposition r) (content_type r) = Some name"
    and "unique_name (\<lambda>n. files st n \<noteq> None) name = Some filename"
    and "content_length_ok r"
  shows "\<exists>st'. download_one L idx url (Response r) st = Some st' \<and>
           files st' = (if open_ok L filename
                        then (files st)(filename \<mapsto> concat (chunks r)) else files st)"
  using assms by (simp add: download_one_def Let_def failed_def)

lemma download_one_total:
  assumes "finite (dom (files st))"
  shows "\<exists>st'. download_one L idx url got st = Some st' \<and> finite (dom (files st'))"
proof (cases got)
  case RequestFailed
  with assms show ?thesis by (simp add: download_one_def failed_def)
next
  case (Response r)
  show ?thesis
  proof (cases "resolve_filename L idx url (content_disposition r) (content_type r)")
    case None
    with Response assms show ?thesis by (simp add: download_one_def failed_def)
  next
    case (Some name)
    from assms have "finite {n. files st n \<noteq> None}" by (simp add: dom_def)
    from unique_name_total [OF this, of name]
    obtain f where "unique_name (\<lambda>n. files st n \<noteq> None) name = Some f" by blast
    with Response Some assms show ?thesis by (simp add: download_one_def Let_def failed_def)
  qed
qed

lemma download_loop_keeps:
  "finite (dom (files st)) \<Longrightarrow>
   \<exists>st'. download_loop L net idx urls st = Some st' \<and>
         (\<forall>n b. files st n = Some b \<longrightarrow> files st' n = Some b)"
proof (induction urls arbitrary: idx st)
  case Nil
  show ?case by simp
next
  case (Cons url urls)
  from download_one_total [OF Cons.prems, of L idx url "net idx url"]
  obtain st1 where s1: "download_one L idx url (net idx url) st = Some st1"
    and f1: "finite (dom (files st1))" by blast
  from Cons.IH [OF f1, of "Suc idx"]
  obtain st' where s2: "download_loop L net (Suc idx) urls st1 = Some st'"
    and k2: "\<forall>n b. files st1 n = Some b \<longrightarrow> files st' n = Some b" by blast
  have "\<forall>n b. files st n = Some b \<longrightarrow> files st1 n = Some b"
    using download_one_keeps [OF s1] by blast
  with s1 s2 k2 show ?case by simp
qed

lemma unique_name_taken_once:
  assumes "exists (py ''data.csv'')" and "\<not> exists (py ''data_1.csv'')"
  shows "unique_name exists (py ''data.csv'') = Some (py ''data_1.csv'')"
proof -
  have s: "splitext (py ''data.csv'') = (py ''data'', py ''.csv'')" by code_simp
  have n: "str_nat (Suc 0) = py ''1''" by (simp add: str_nat.simps)
  have "unique_name exists (py ''data.csv'')
      = free_name exists (py ''data'') (py ''.csv'') 1 (py ''data.csv'')"
    unfolding unique_name_def s using assms(1) by simp
  also have "\<dots> = free_name exists (py ''data'') (py ''.csv'') (Suc 1) (py ''data_1.csv'')"
    using assms(1) by (subst free_name.simps) (simp add: n)
  also have "\<dots> = Some (py ''data_1.csv'')"
    using assms(2) by (subst free_name.simps) simp
  finally show ?thesis .
qed

lemma two_downloads:
  assumes n1: "net 1 u1 = Response r1" and n2: "net 2 u2 = Response r2"
    and v1: "resolve_filename L 1 u1 (content_disposition r1) (content_type r1) = Some (py ''data.csv'')"
    and v2: "resolve_filename L 2 u2 (content_disposition r2) (content_type r2) = Some (py ''data.csv'')"
    and c1: "content_length_ok r1" and c2: "content_length_ok r2"
    and e1: "files st (py ''data.csv'') = None" and e2: "files st (py ''data_1.csv'') = None"
    and o1: "open_ok L (py ''data.csv'')" and o2: "open_ok L (py ''data_1.csv'')"
  shows "\<exists>st'. download_loop L net 1 [u1, u2] st = Some st' \<and>
           files st' = (files st)(py ''data.csv'' \<mapsto> concat (chunks r1),
                                  py ''data_1.csv'' \<mapsto> concat (chunks r2))"
proof -
  have "unique_name (\<lambda>n. files st n \<noteq> None) (py ''data.csv'') = Some (py ''data.csv'')"
    using e1 by (simp add: unique_name_def)
  from download_one_files [OF v1 this c1] o1
  obtain st1 where a: "download_one L 1 u1 (Response r1) st = Some st1"
    and f1: "files st1 = (files st)(py ''data.csv'' \<mapsto> concat (chunks r1))" by auto
  have "unique_name (\<lambda>n. files st1 n \<noteq> None) (py ''data.csv'') = Some (py ''data_1.csv'')"
    by (rule unique_name_taken_once) (insert e2, simp_all add: f1)
  from download_one_files [OF v2 this c2] o2
  obtain st2 where b: "download_one L 2 u2 (Response r2) st1 = Some st2"
    and f2: "files st2 = (files st1)(py ''data_1.csv'' \<mapsto> concat (chunks r2))" by auto
  have "download_loop L net 1 [u1, u2] st = Some st2"
    using a b n1 n2 by (simp add: numeral_2_eq_2)
  with f1 f2 show ?thesis by simp
qed

lemma read_urls_blank: "(read_urls lines = []) = (\<forall>line \<in> set lines. strip line = [])"
  by (simp add: read_urls_def filter_empty_conv)

text \<open>
  Claim C6. When the filename of a response (from the Content-Disposition header, else
  from the URL) has one of the extensions \<open>.aspx .php .jsp .cgi .asp\<close>, the content type
  is in the MIME table, and the table's extension differs from the current one, then the
  table's extension takes the place of the current one, and the name of the download is the
  sanitized result. A response with the filename \<open>report.aspx\<close> and the content type
  \<open>application/pdf\<close> is named \<open>report.pdf\<close>; in a directory with finitely many entries
  the collision loop then gives it a name that is free and that ends in \<open>.pdf\<close>, not in
  \<open>.aspx\<close>, and the file is written under that name when \<open>open\<close> succeeds (when it
  fails the directory stays as it was).
\<close>

theorem dynamic_extension_replaced:
  "(response_filename L url cd = Some filename \<and>
    map_of mime_to_ext (lower L (strip (takeWhile (\<lambda>c. c \<noteq> ch CHR '';'') ct))) = Some e \<and>
    lower L (snd (splitext filename)) \<in> set dynamic_exts \<and>
    lower L (snd (splitext filename)) \<noteq> e
    \<longrightarrow> fix_extension L filename (correct_ext_of L ct) = fst (splitext filename) @ e \<and>
        resolve_filename L idx url cd ct
          = Some (sanitize_filename L (fst (splitext filename) @ e))) \<and>
   resolve_filename L idx url (content_disposition report_response) (content_type report_response)
     = Some (py ''report.pdf'') \<and>
   (finite (dom (files st))
    \<longrightarrow> (\<exists>st' name. unique_name (\<lambda>n. files st n \<noteq> None) (py ''report.pdf'') = Some name \<and>
           download_one L idx url (Response report_response) st = Some st' \<and>
           files st name = None \<and>
           files st' = (if open_ok L name
                        then (files st)(name \<mapsto> concat (chunks report_response))
                        else files st) \<and>
           endswith name (py ''.pdf'') \<and> \<not> endswith name (py ''.aspx'')))"
proof (intro conjI impI)
  assume a: "response_filename L url cd = Some filename \<and>
    map_of mime_to_ext (lower L (strip (takeWhile (\<lambda>c. c \<noteq> ch CHR '';'') ct))) = Some e \<and>
    lower L (snd (splitext filename)) \<in> set dynamic_exts \<and>
    lower L (snd (splitext filename)) \<noteq> e"
  then have c: "correct_ext_of L ct = e" by (simp add: correct_ext_of_table)
  from a have dot: "ch CHR ''.'' \<in> set e" by (blast dest: mime_to_ext_dot)
  from a dot have f: "fix_extension L filename e = fst (splitext filename) @ e"
    by (simp add: fix_extension_replaces)
  with c show "fix_extension L filename (correct_ext_of L ct) = fst (splitext filename) @ e"
    by simp
  from dot have "e \<noteq> []" by auto
  with a c f dot show "resolve_filename L idx url cd ct
      = Some (sanitize_filename L (fst (splitext filename) @ e))"
    by (simp add: resolve_filename_def Let_def)
next
  show "resolve_filename L idx url (content_disposition report_response)
      (content_type report_response) = Some (py ''report.pdf'')"
    by (rule report_aspx_resolved)
next
  assume fin: "finite (dom (files st))"
  then have "finite {n. files st n \<noteq> None}" by (simp add: dom_def)
  from unique_name_total [OF this, of "py ''report.pdf''"]
  obtain r where u: "unique_name (\<lambda>n. files st n \<noteq> None) (py ''report.pdf'') = Some r"
    and free: "files st r = None"
    and shape: "r = py ''report.pdf'' \<or>
      (\<exists>k. r = numbered (fst (splitext (py ''report.pdf''))) (snd (splitext (py ''report.pdf''))) k)"
    by (auto split: if_splits)
  from shape have ends: "endswith r (py ''.pdf'') \<and> \<not> endswith r (py ''.aspx'')"
  proof
    assume "r = py ''report.pdf''"
    then show ?thesis by (simp add: endswith_def)
  next
    assume "\<exists>k. r = numbered (fst (splitext (py ''report.pdf'')))
      (snd (splitext (py ''report.pdf''))) k"
    then obtain k where "r = numbered (py ''report'') (py ''.pdf'') k"
      unfolding splitext_report fst_conv snd_conv by blast
    then show ?thesis using numbered_ends [of "py ''report''" "py ''.pdf''" k]
      numbered_pdf_not_aspx [of "py ''report''" k] by simp
  qed
  have "content_length_ok report_response" by (simp add: report_response_def)
  from download_one_files [OF report_aspx_resolved u this]
  obtain st' where "download_one L idx url (Response report_response) st = Some st'"
    and "files st' = (if open_ok L r then (files st)(r \<mapsto> concat (chunks report_response))
                      else files st)" by blast
  with u free ends
  show "\<exists>st' name. unique_name (\<lambda>n. files st n \<noteq> None) (py ''report.pdf'') = Some name \<and>
           download_one L idx url (Response report_response) st = Some st' \<and>
           files st name = None \<and>
           files st' = (if open_ok L name
                        then (files st)(name \<mapsto> concat (chunks report_response))
                        else files st) \<and>
           endswith name (py ''.pdf'') \<and> \<not> endswith name (py ''.aspx'')"
    by blast
qed

theorem dynamic_extension_replaced_witness:
  "response_filename plain_lib (py ''http://example.com/get/download.php'') [] = Some (py ''download.php'') \<and>
   resolve_filename plain_lib 1 (py ''http://example.com/get/download.php'') []
     (py ''Application/PDF; charset=binary'') = Some (py ''download.pdf'') \<and>
   (\<exists>st'. download_one plain_lib 1 (py ''http://example.com/get/download.php'')
        (Response report_response) (start_state Map.empty) = Some st' \<and>
      files st' = [py ''report.pdf'' \<mapsto> [37, 80, 68, 70]])"
proof -
  have a: "response_filename plain_lib (py ''http://example.com/get/download.php'') []
      = Some (py ''download.php'')" by code_simp
  have b: "map_of mime_to_ext (lower plain_lib (strip (takeWhile (\<lambda>c. c \<noteq> ch CHR '';'')
      (py ''Application/PDF; charset=binary'')))) = Some (py ''.pdf'')" by code_simp
  have c: "lower plain_lib (snd (splitext (py ''download.php''))) \<in> set dynamic_exts"
    by code_simp
  have d: "lower plain_lib (snd (splitext (py ''download.php''))) \<noteq> py ''.pdf''"
    by code_simp
  have e: "sanitize_filename plain_lib (fst (splitext (py ''download.php'')) @ py ''.pdf'')
      = py ''download.pdf''" by code_simp
  have f: "finite (dom (files (start_state Map.empty)))" by (simp add: start_state_def)
  have g: "files (start_state Map.empty) = Map.empty" by (simp add: start_state_def)
  have h: "concat (chunks report_response) = [37, 80, 68, 70]" by (simp add: report_response_def)
  have n: "unique_name (\<lambda>n. files (start_state Map.empty) n \<noteq> None) (py ''report.pdf'')
      = Some (py ''report.pdf'')" by (simp add: unique_name_def start_state_def)
  have o: "open_ok plain_lib (py ''report.pdf'')" by code_simp
  from dynamic_extension_replaced [of plain_lib "py ''http://example.com/get/download.php''" "[]"
      "py ''download.php''" "py ''Application/PDF; charset=binary''" "py ''.pdf''" 1
      "start_state Map.empty"] a b c d f
  have r: "resolve_filename plain_lib 1 (py ''http://example.com/get/download.php'') []
        (py ''Application/PDF; charset=binary'')
      = Some (sanitize_filename plain_lib (fst (splitext (py ''download.php'')) @ py ''.pdf''))"
    and w: "\<exists>st' name.
      unique_name (\<lambda>n. files (start_state Map.empty) n \<noteq> None) (py ''report.pdf'') = Some name \<and>
      download_one plain_lib 1 (py ''http://example.com/get/download.php'')
        (Response report_response) (start_state Map.empty) = Some st' \<and>
      files (start_state Map.empty) name = None \<and>
      files st' = (if open_ok plain_lib name
                   then (files (start_state Map.empty))(name \<mapsto> concat (chunks report_response))
                   else files (start_state Map.empty)) \<and>
      endswith name (py ''.pdf'') \<and> \<not> endswith name (py ''.aspx'')"
    by blast+
  from w obtain st' name
    where "unique_name (\<lambda>n. files (start_state Map.empty) n \<noteq> None) (py ''report.pdf'') = Some name"
      and dl: "download_one plain_lib 1 (py ''http://example.com/get/download.php'')
        (Response report_response) (start_state Map.empty) = Some st'"
      and fs: "files st' = (if open_ok plain_lib name
                   then (files (start_state Map.empty))(name \<mapsto> concat (chunks report_response))
                   else files (start_state Map.empty))"
    by blast
  with n have "name = py ''report.pdf''" by (simp only: option.inject)
  with fs o g h have "files st' = [py ''report.pdf'' \<mapsto> [37, 80, 68, 70]]" by (simp only: if_True)
  with dl have "\<exists>st'. download_one plain_lib 1 (py ''http://example.com/get/download.php'')
        (Response report_response) (start_state Map.empty) = Some st' \<and>
      files st' = [py ''report.pdf'' \<mapsto> [37, 80, 68, 70]]" by blast
  moreover from r e have "resolve_filename plain_lib 1 (py ''http://example.com/get/download.php'') []
        (py ''Application/PDF; charset=binary'') = Some (py ''download.pdf'')"
    by (simp only:)
  ultimately show ?thesis using a by blast
qed

text \<open>
  Claim C7. In a directory with finitely many entries the collision handling returns a
  free name: the sanitized name itself when it is free, else \<open>base_k.ext\<close> for the least
  \<open>k \<ge> 1\<close> for which that name is free. A run of the download loop ends and leaves
  every file that was in the directory with its content. Two responses that both resolve
  to \<open>data.csv\<close>, in a directory that has neither \<open>data.csv\<close> nor \<open>data_1.csv\<close> and
  on a filesystem that opens both names, are written to \<open>data.csv\<close> and \<open>data_1.csv\<close>.
\<close>

theorem collision_numbering:
  "(finite {n. exists n}
    \<longrightarrow> (\<exists>r. unique_name exists filename = Some r \<and> \<not> exists r \<and>
           (if exists filename
            then \<exists>k\<ge>1. r = numbered (fst (splitext filename)) (snd (splitext filename)) k \<and>
                   (\<forall>j. 1 \<le> j \<and> j < k \<longrightarrow>
                      exists (numbered (fst (splitext filename)) (snd (splitext filename)) j))
            else r = filename))) \<and>
   (finite (dom (files st))
    \<longrightarrow> (\<exists>st'. download_loop L net idx urls st = Some st' \<and>
           (\<forall>n b. files st n = Some b \<longrightarrow> files st' n = Some b))) \<and>
   (net 1 u1 = Response r1 \<and> net 2 u2 = Response r2 \<and>
    resolve_filename L 1 u1 (content_disposition r1) (content_type r1) = Some (py ''data.csv'') \<and>
    resolve_filename L 2 u2 (content_disposition r2) (content_type r2) = Some (py ''data.csv'') \<and>
    content_length_ok r1 \<and> content_length_ok r2 \<and>
    open_ok L (py ''data.csv'') \<and> open_ok L (py ''data_1.csv'') \<and>
    files st (py ''data.csv'') = None \<and> files st (py ''data_1.csv'') = None
    \<longrightarrow> (\<exists>st'. download_loop L net 1 [u1, u2] st = Some st' \<and>
           files st' = (files st)(py ''data.csv'' \<mapsto> concat (chunks r1),
                                  py ''data_1.csv'' \<mapsto> concat (chunks r2))))"
proof (intro conjI impI)
  assume "finite {n. exists n}"
  then show "\<exists>r. unique_name exists filename = Some r \<and> \<not> exists r \<and>
           (if exists filename
            then \<exists>k\<ge>1. r = numbered (fst (splitext filename)) (snd (splitext filename)) k \<and>
                   (\<forall>j. 1 \<le> j \<and> j < k \<longrightarrow>
                      exists (numbered (fst (splitext filename)) (snd (splitext filename)) j))
            else r = filename)"
    by (rule unique_name_total)
next
  assume "finite (dom (files st))"
  then show "\<exists>st'. download_loop L net idx urls st = Some st' \<and>
           (\<forall>n b. files st n = Some b \<longrightarrow> files st' n = Some b)"
    by (rule download_loop_keeps)
next
  assume a: "net 1 u1 = Response r1 \<and> net 2 u2 = Response r2 \<and>
    resolve_filename L 1 u1 (content_disposition r1) (content_type r1) = Some (py ''data.csv'') \<and>
    resolve_filename L 2 u2 (content_disposition r2) (content_type r2) = Some (py ''data.csv'') \<and>
    content_length_ok r1 \<and> content_length_ok r2 \<and>
    open_ok L (py ''data.csv'') \<and> open_ok L (py ''data_1.csv'') \<and>
    files st (py ''data.csv'') = None \<and> files st (py ''data_1.csv'') = None"
  show "\<exists>st'. download_loop L net 1 [u1, u2] st = Some st' \<and>
           files st' = (files st)(py ''data.csv'' \<mapsto> concat (chunks r1),
                                  py ''data_1.csv'' \<mapsto> concat (chunks r2))"
    by (rule two_downloads) (simp_all only: a)
qed

theorem collision_numbering_witness:
  "unique_name (\<lambda>n. n \<in> set [py ''data.csv'', py ''data_1.csv'']) (py ''data.csv'')
     = Some (py ''data_2.csv'') \<and>
   (\<exists>st'. download_loop plain_lib csv_net 1
        [py ''http://a.example/data.csv'', py ''http://b.example/files/data.csv'']
        (start_state Map.empty) = Some st' \<and>
      files st' = [py ''data.csv'' \<mapsto> [1], py ''data_1.csv'' \<mapsto> [2]]) \<and>
   (\<exists>st'. download_loop plain_lib csv_net 1
        [py ''http://a.example/data.csv'', py ''http://b.example/files/data.csv'']
        (start_state [py ''data.csv'' \<mapsto> [9]]) = Some st' \<and>
      files st' (py ''data.csv'') = Some [9])"
proof -
  let ?E = "\<lambda>n. n \<in> set [py ''data.csv'', py ''data_1.csv'']"
  let ?d = "py ''data.csv''"
  let ?u1 = "py ''http://a.example/data.csv''"
  let ?u2 = "py ''http://b.example/files/data.csv''"
  let ?r1 = "\<lparr>content_disposition = [], content_type = py ''text/csv'',
       content_length_ok = True, chunks = [[1]], stream_ok = True\<rparr>"
  let ?r2 = "\<lparr>content_disposition = [], content_type = py ''text/csv'',
       content_length_ok = True, chunks = [[2]], stream_ok = True\<rparr>"
  note inst = collision_numbering [where exists = ?E and filename = ?d and L = plain_lib
      and net = csv_net and idx = 1 and urls = "[?u1, ?u2]" and ?u1.0 = ?u1 and ?u2.0 = ?u2
      and ?r1.0 = ?r1 and ?r2.0 = ?r2]
  have fin: "finite {n. ?E n}" by simp
  have s: "splitext ?d = (py ''data'', py ''.csv'')" by code_simp
  have n1: "numbered (py ''data'') (py ''.csv'') 1 = py ''data_1.csv''" by code_simp
  have n2: "numbered (py ''data'') (py ''.csv'') 2 = py ''data_2.csv''" by code_simp
  have t: "?E ?d" by simp
  have t1: "?E (py ''data_1.csv'')" by simp
  have t2: "\<not> ?E (py ''data_2.csv'')" by simp
  from inst [where st = "start_state Map.empty", THEN conjunct1, THEN mp, OF fin]
  obtain r where u: "unique_name ?E ?d = Some r" and nr: "\<not> ?E r"
    and sh: "if ?E ?d
       then \<exists>k\<ge>1. r = numbered (fst (splitext ?d)) (snd (splitext ?d)) k \<and>
              (\<forall>j. 1 \<le> j \<and> j < k \<longrightarrow> ?E (numbered (fst (splitext ?d)) (snd (splitext ?d)) j))
       else r = ?d"
    by blast
  from sh obtain k where k1: "1 \<le> k" and rk: "r = numbered (py ''data'') (py ''.csv'') k"
    and least: "\<forall>j. 1 \<le> j \<and> j < k \<longrightarrow> ?E (numbered (py ''data'') (py ''.csv'') j)"
    unfolding if_P [OF t] s fst_conv snd_conv by blast
  have "k \<noteq> 1"
  proof
    assume "k = 1"
    with rk n1 have "r = py ''data_1.csv''" by (simp only:)
    with nr t1 show False by blast
  qed
  moreover have "\<not> 2 < k"
  proof
    assume "2 < k"
    with least have "?E (numbered (py ''data'') (py ''.csv'') 2)" by simp
    with n2 t2 show False by (simp only:)
  qed
  ultimately have "k = 2" using k1 by arith
  with rk n2 have "r = py ''data_2.csv''" by (simp only:)
  with u have first: "unique_name ?E ?d = Some (py ''data_2.csv'')" by (simp only:)
  have v1: "resolve_filename plain_lib 1 ?u1 (content_disposition ?r1) (content_type ?r1)
      = Some ?d" by code_simp
  have v2: "resolve_filename plain_lib 2 ?u2 (content_disposition ?r2) (content_type ?r2)
      = Some ?d" by code_simp
  have g: "csv_net 1 ?u1 = Response ?r1 \<and> csv_net 2 ?u2 = Response ?r2 \<and>
      content_length_ok ?r1 \<and> content_length_ok ?r2 \<and>
      open_ok plain_lib ?d \<and> open_ok plain_lib (py ''data_1.csv'') \<and>
      files (start_state Map.empty) ?d = None \<and>
      files (start_state Map.empty) (py ''data_1.csv'') = None"
    by (simp add: csv_net_def start_state_def plain_lib_def)
  from inst [where st = "start_state Map.empty", THEN conjunct2, THEN conjunct2] v1 v2 g
  have "\<exists>st'. download_loop plain_lib csv_net 1 [?u1, ?u2] (start_state Map.empty) = Some st' \<and>
      files st' = (files (start_state Map.empty))(?d \<mapsto> concat (chunks ?r1),
                    py ''data_1.csv'' \<mapsto> concat (chunks ?r2))"
    by blast
  moreover have "(files (start_state Map.empty))(?d \<mapsto> concat (chunks ?r1),
                    py ''data_1.csv'' \<mapsto> concat (chunks ?r2))
      = [?d \<mapsto> [1], py ''data_1.csv'' \<mapsto> [2]]"
    by (simp add: start_state_def)
  ultimately have second: "\<exists>st'. download_loop plain_lib csv_net 1 [?u1, ?u2]
      (start_state Map.empty) = Some st' \<and>
      files st' = [?d \<mapsto> [1], py ''data_1.csv'' \<mapsto> [2]]"
    by (simp only:)
  have fin2: "finite (dom (files (start_state [?d \<mapsto> [9]])))" by (simp add: start_state_def)
  have old: "files (start_state [?d \<mapsto> [9]]) ?d = Some [9]" by (simp add: start_state_def)
  from inst [where st = "start_state [?d \<mapsto> [9]]", THEN conjunct2, THEN conjunct1, THEN mp,
      OF fin2] old
  have third: "\<exists>st'. download_loop plain_lib csv_net 1 [?u1, ?u2]
      (start_state [?d \<mapsto> [9]]) = Some st' \<and> files st' ?d = Some [9]"
    by blast
  from first second third show ?thesis by blast
qed

text \<open>
  Claim C8. When the input file does not exist, or none of its lines is non-blank,
  \<open>download_files\<close> prints the one message that says so and returns: no URL is
  requested, the files of the output directory are what they were, every counter is zero
  and no statistics are printed. (The output directory itself exists by then: it is
  created before the input file is opened.)
\<close>

theorem absent_input_halts:
  assumes "input = None \<or> (\<exists>lines. input = Some lines \<and> (\<forall>line \<in> set lines. strip line = []))"
  shows "\<exists>st. download_files L net input_file input output_dir dir = Some st \<and>
           files st = dir \<and> requested st = [] \<and>
           printed st = [if input = None
                         then py ''Error: File '' @ [39] @ input_file @ [39] @ py '' not found.''
                         else py ''No URLs found in '' @ input_file] \<and>
           success_count st = 0 \<and> failed_count st = 0 \<and> total_bytes st = 0 \<and>
           file_types st = Map.empty \<and> \<not> stats_printed st"
  using assms
  by (auto simp: download_files_def read_urls_blank start_state_def Let_def)

theorem absent_input_halts_witness:
  "(\<exists>st. download_files plain_lib csv_net (py ''urls.txt'') (Some [py ''   '', []]) (py ''out'')
        [py ''old.pdf'' \<mapsto> [7]] = Some st \<and>
      files st = [py ''old.pdf'' \<mapsto> [7]] \<and> requested st = [] \<and>
      printed st = [py ''No URLs found in urls.txt''] \<and> \<not> stats_printed st) \<and>
   (\<exists>st. download_files plain_lib csv_net (py ''urls.txt'') None (py ''out'')
        [py ''old.pdf'' \<mapsto> [7]] = Some st \<and>
      files st = [py ''old.pdf'' \<mapsto> [7]] \<and> requested st = [] \<and>
      printed st = [py ''Error: File '' @ [39] @ py ''urls.txt'' @ [39] @ py '' not found.''] \<and>
      \<not> stats_printed st)"
proof -
  have blank: "\<forall>line \<in> set [py ''   '', []]. strip line = []"
    by (simp add: strip_def isspace_def)
  from absent_input_halts [of "Some [py ''   '', []]" plain_lib csv_net "py ''urls.txt''"
      "py ''out''" "[py ''old.pdf'' \<mapsto> [7]]"] blank
  have a: "\<exists>st. download_files plain_lib csv_net (py ''urls.txt'') (Some [py ''   '', []]) (py ''out'')
        [py ''old.pdf'' \<mapsto> [7]] = Some st \<and>
      files st = [py ''old.pdf'' \<mapsto> [7]] \<and> requested st = [] \<and>
      printed st = [py ''No URLs found in urls.txt''] \<and> \<not> stats_printed st"
    by simp blast
  from absent_input_halts [of None plain_lib csv_net "py ''urls.txt''"
      "py ''out''" "[py ''old.pdf'' \<mapsto> [7]]"]
  have b: "\<exists>st. download_files plain_lib csv_net (py ''urls.txt'') None (py ''out'')
        [py ''old.pdf'' \<mapsto> [7]] = Some st \<and>
      files st = [py ''old.pdf'' \<mapsto> [7]] \<and> requested st = [] \<and>
      printed st = [py ''Error: File '' @ [39] @ py ''urls.txt'' @ [39] @ py '' not found.''] \<and>
      \<not> stats_printed st"
    by simp blast
  from a b show ?thesis by blast
qed

end
